theory Spec2Isabelle
  imports Main "HOL-Library.AList"
begin

section \<open>Data model of \<^verbatim>\<open>ci_info/push.py\<close>\<close>

text \<open>
  \<^verbatim>\<open>class Status(Enum)\<close>: the three verdicts of a label.
\<close>

datatype Status = PASS | FAIL | INTERMITTENT

text \<open>
  The exceptions the module itself can raise: the \<^verbatim>\<open>assert\<close> of
  \<^verbatim>\<open>LabelSummary.__post_init__\<close>, the subscript of a dict with a missing key, and
  the division of an integer whose quotient does not fit a float.
\<close>

datatype error = AssertionError | KeyError | OverflowError

text \<open>
  \<^verbatim>\<open>@dataclass class Task\<close>. Python integers are unbounded, so \<open>duration\<close> is an \<open>int\<close>.
\<close>

record Task =
  label :: string
  duration :: int
  result :: string
  classification :: string

text \<open>\<^verbatim>\<open>Task.failed\<close>: \<^verbatim>\<open>self.result in ('busted', 'exception', 'testfailed')\<close>.\<close>

definition Task_failed :: "Task \<Rightarrow> bool" where
  "Task_failed t = (result t \<in> set [''busted'', ''exception'', ''testfailed''])"

text \<open>
  \<^verbatim>\<open>@dataclass class LabelSummary\<close>. Its two fields are called \<^verbatim>\<open>label\<close> and
  \<^verbatim>\<open>tasks\<close> in the source; they carry a prefix here because \<open>label\<close> is already the
  field of \<open>Task\<close>.
\<close>

record LabelSummary =
  summary_label :: string
  summary_tasks :: "Task list"

text \<open>
  The constructor followed by \<^verbatim>\<open>__post_init__\<close>:
  \<^verbatim>\<open>assert all(t.label == self.label for t in self.tasks)\<close>.
  A failed assertion is the value \<open>Inl AssertionError\<close> (the interpreter runs
  \<^verbatim>\<open>assert\<close> statements unless it is started with \<^verbatim>\<open>-O\<close>).
\<close>

definition LabelSummary_init :: "string \<Rightarrow> Task list \<Rightarrow> error + LabelSummary" where
  "LabelSummary_init l ts =
     (if list_all (\<lambda>t. label t = l) ts
      then Inr \<lparr>summary_label = l, summary_tasks = ts\<rparr>
      else Inl AssertionError)"

text \<open>
  \<^verbatim>\<open>LabelSummary.classifications\<close>:
  \<^verbatim>\<open>set(t.classification for t in self.tasks if t.failed)\<close>.
\<close>

definition LabelSummary_classifications :: "LabelSummary \<Rightarrow> string set" where
  "LabelSummary_classifications s =
     set (map classification (filter Task_failed (summary_tasks s)))"

text \<open>\<^verbatim>\<open>LabelSummary.results\<close>: \<^verbatim>\<open>set(t.result for t in self.tasks)\<close>.\<close>

definition LabelSummary_results :: "LabelSummary \<Rightarrow> string set" where
  "LabelSummary_results s = set (map result (summary_tasks s))"

text \<open>
  \<^verbatim>\<open>LabelSummary.status\<close>. The loop variable \<^verbatim>\<open>overall_status\<close> starts as Python's
  \<^verbatim>\<open>None\<close> and is returned as it stands after the last task, so the result is a
  \<open>Status option\<close>: an empty task list gives \<open>None\<close>.
\<close>

fun status_loop :: "Status option \<Rightarrow> Task list \<Rightarrow> Status option" where
  "status_loop overall_status [] = overall_status"
| "status_loop overall_status (task # ts) =
     (let status = (if Task_failed task then FAIL else PASS) in
      status_loop
        (case overall_status of
           None \<Rightarrow> Some status
         | Some overall \<Rightarrow> if status \<noteq> overall then Some INTERMITTENT else Some overall)
        ts)"

definition LabelSummary_status :: "LabelSummary \<Rightarrow> Status option" where
  "LabelSummary_status s = status_loop None (summary_tasks s)"

section \<open>The collaborators\<close>

text \<open>
  \<^verbatim>\<open>Push._hgmo\<close> is the JSON object that hg.mozilla.org answers for a branch and a
  revision. Of its keys the module reads \<^verbatim>\<open>pushid\<close> and \<^verbatim>\<open>parents\<close> (and
  \<^verbatim>\<open>backedoutby\<close>, which no function modelled here uses).
\<close>

record hgmo_json =
  hg_pushid :: int
  hg_parents :: "string list"

text \<open>
  One element of \<^verbatim>\<open>run_query('push_results', args)['data']\<close>: a JSON object in which
  each of the four keys \<^verbatim>\<open>label\<close>, \<^verbatim>\<open>duration\<close>, \<^verbatim>\<open>result\<close>,
  \<^verbatim>\<open>classification\<close> is present or absent. \<open>None\<close> is an absent key. The
  query answers these four columns: a record has no other key, and the value of a
  present key has the type of its column.
\<close>

record kwargs =
  kw_label :: "string option"
  kw_duration :: "int option"
  kw_result :: "string option"
  kw_classification :: "string option"

text \<open>
  The world outside the module: what \<^verbatim>\<open>requests.get(HGMO_JSON_URL.format(branch, rev)).json()\<close>
  answers for a branch and a revision, and what the \<^verbatim>\<open>push_results\<close> query answers for a
  revision. Both are functions: the model covers the runs in which every fetch answers,
  and the same request always has the same answer (the \<^verbatim>\<open>memoized_property\<close> cache of
  the source then changes no result).
\<close>

record world =
  requests_get_hgmo :: "string \<Rightarrow> string \<Rightarrow> hgmo_json"
  run_query_push_results :: "string \<Rightarrow> kwargs list"

section \<open>Push\<close>

text \<open>\<^verbatim>\<open>class Push\<close> with the fields \<^verbatim>\<open>rev\<close> and \<^verbatim>\<open>branch\<close> set by \<^verbatim>\<open>__init__\<close>.\<close>

record Push =
  push_rev :: string
  push_branch :: string

text \<open>\<^verbatim>\<open>Push(rev)\<close>: the branch takes its default, \<^verbatim>\<open>'autoland'\<close>.\<close>

definition Push_init :: "string \<Rightarrow> Push" where
  "Push_init r = \<lparr>push_rev = r, push_branch = ''autoland''\<rparr>"

definition Push_hgmo :: "world \<Rightarrow> Push \<Rightarrow> hgmo_json" where
  "Push_hgmo w self = requests_get_hgmo w (push_branch self) (push_rev self)"

definition Push_pushid :: "world \<Rightarrow> Push \<Rightarrow> int" where
  "Push_pushid w self = hg_pushid (Push_hgmo w self)"

text \<open>
  \<^verbatim>\<open>Push.parent\<close>. The inner \<^verbatim>\<open>for rev in other._hgmo['parents']\<close> either returns a
  parent (\<open>Inl\<close>) or runs to the end of the list and leaves \<^verbatim>\<open>other\<close> at the last
  revision it looked at (\<open>Inr\<close>); with an empty list \<^verbatim>\<open>other\<close> is unchanged.
\<close>

fun parent_for :: "world \<Rightarrow> Push \<Rightarrow> Push \<Rightarrow> string list \<Rightarrow> Push + Push" where
  "parent_for w self other [] = Inr other"
| "parent_for w self other (r # revs) =
     (let parent = Push_init r in
      if Push_pushid w parent \<noteq> Push_pushid w self then Inl parent
      else parent_for w self parent revs)"

text \<open>
  The outer \<^verbatim>\<open>while True\<close> has no exit but the \<^verbatim>\<open>return\<close> of the inner loop, so
  it may run forever: \<open>None\<close> is the run that never returns.
\<close>

partial_function (option) parent_while :: "world \<Rightarrow> Push \<Rightarrow> Push \<Rightarrow> Push option" where
  "parent_while w self other =
     (case parent_for w self other (hg_parents (Push_hgmo w other)) of
        Inl parent \<Rightarrow> Some parent
      | Inr other' \<Rightarrow> parent_while w self other')"

declare parent_while.simps [code]

definition Push_parent :: "world \<Rightarrow> Push \<Rightarrow> Push option" where
  "Push_parent w self = parent_while w self self"

text \<open>
  \<^verbatim>\<open>Push.tasks\<close>: the sanitising loop over the query's records. A record with a missing
  key is skipped by the first \<^verbatim>\<open>continue\<close>, one with \<^verbatim>\<open>kwargs['duration'] <= 0\<close> by
  the second; \<open>the\<close> is applied to present keys only.
\<close>

fun tasks_loop :: "kwargs list \<Rightarrow> Task list \<Rightarrow> Task list" where
  "tasks_loop [] tasks = tasks"
| "tasks_loop (kw # data) tasks =
     (if kw_label kw = None \<or> kw_duration kw = None
         \<or> kw_result kw = None \<or> kw_classification kw = None
      then tasks_loop data tasks
      else if the (kw_duration kw) \<le> 0
      then tasks_loop data tasks
      else tasks_loop data
             (tasks @ [\<lparr>label = the (kw_label kw), duration = the (kw_duration kw),
                        result = the (kw_result kw),
                        classification = the (kw_classification kw)\<rparr>]))"

definition Push_tasks :: "world \<Rightarrow> Push \<Rightarrow> Task list" where
  "Push_tasks w self = tasks_loop (run_query_push_results w (push_rev self)) []"

text \<open>\<^verbatim>\<open>Push.task_labels\<close>: \<^verbatim>\<open>set([t.label for t in self.tasks])\<close>.\<close>

definition Push_task_labels :: "world \<Rightarrow> Push \<Rightarrow> string set" where
  "Push_task_labels w self = set (map label (Push_tasks w self))"

text \<open>
  \<^verbatim>\<open>Push.label_summaries\<close>. A Python dict keeps its keys in insertion order, so it is an
  association list and a store is \<open>AList.update\<close> (replace in place, or append).
  \<^verbatim>\<open>labels[task.label].append(task)\<close> on a \<^verbatim>\<open>defaultdict(list)\<close> reads the list of the
  key, the empty list when the key is new, and stores it extended. The dict
  comprehension then builds one \<open>LabelSummary\<close> per item and stops at the first
  failing constructor.
\<close>

definition labels_append :: "(string \<times> Task list) list \<Rightarrow> Task \<Rightarrow> (string \<times> Task list) list" where
  "labels_append labels task =
     AList.update (label task)
       ((case map_of labels (label task) of None \<Rightarrow> [] | Some ts \<Rightarrow> ts) @ [task]) labels"

fun summaries_of :: "(string \<times> Task list) list \<Rightarrow> error + (string \<times> LabelSummary) list" where
  "summaries_of [] = Inr []"
| "summaries_of ((l, ts) # items) =
     (case LabelSummary_init l ts of
        Inl e \<Rightarrow> Inl e
      | Inr s \<Rightarrow>
          (case summaries_of items of
             Inl e \<Rightarrow> Inl e
           | Inr rest \<Rightarrow> Inr ((l, s) # rest)))"

definition Push_label_summaries :: "world \<Rightarrow> Push \<Rightarrow> error + (string \<times> LabelSummary) list" where
  "Push_label_summaries w self = summaries_of (foldl labels_append [] (Push_tasks w self))"

text \<open>
  \<^verbatim>\<open>int(x / 3600)\<close>. In Python 3 the operator \<^verbatim>\<open>/\<close> on two integers is true
  division: its result is the float (IEEE binary64, a significand of 53 bits) nearest to
  the exact quotient, ties going to the even significand, and \<^verbatim>\<open>OverflowError\<close> when
  that float would be \<open>2 ^ 1024\<close> or more. \<^verbatim>\<open>int\<close> then truncates the float. The
  model computes this float exactly, in integers.

  \<open>bit_length\<close> is Python's \<^verbatim>\<open>int.bit_length\<close>, and \<open>round_half_even x y\<close> the
  integer nearest to \<open>x / y\<close> for a positive \<open>y\<close>, the even one of two equally near.
\<close>

function bit_length :: "int \<Rightarrow> nat" where
  "bit_length n = (if n \<le> 0 then 0 else Suc (bit_length (n div 2)))"
  by pat_completeness auto
termination
  by (relation "measure nat") auto

declare bit_length.simps [simp del]

definition round_half_even :: "int \<Rightarrow> int \<Rightarrow> int" where
  "round_half_even x y =
     (let q = x div y; r = x mod y in
      if 2 * r < y \<or> (2 * r = y \<and> even q) then q else q + 1)"

text \<open>
  For \<open>a \<ge> 1\<close>, the float nearest to \<open>a / 3600\<close>, times \<open>2 ^ 64\<close>. The quotient of
  \<open>n = a * 2 ^ 64\<close> by 3600 has at least 53 bits; \<open>shift\<close> is the number of bits
  beyond 53, so \<open>n / (3600 * 2 ^ shift)\<close> lies between \<open>2 ^ 52\<close> and \<open>2 ^ 53\<close>, its
  rounding is the significand, and the float is the significand times
  \<open>2 ^ shift / 2 ^ 64\<close>. (The quotient is at least \<open>1 / 3600\<close>, far above the
  subnormal floats.)
\<close>

definition scaled_quotient :: "int \<Rightarrow> int" where
  "scaled_quotient a =
     (let n = a * 2 ^ 64;
          shift = bit_length (n div 3600) - 53
      in round_half_even n (3600 * 2 ^ shift) * 2 ^ shift)"

text \<open>
  \<^verbatim>\<open>int(a / 3600)\<close> for \<open>a \<ge> 1\<close>: the overflow test (\<open>2 ^ 1088\<close> is
  \<open>2 ^ 1024 * 2 ^ 64\<close>), then the truncation of the float.
\<close>

definition hours_pos :: "int \<Rightarrow> error + int" where
  "hours_pos a =
     (let v = scaled_quotient a in
      if 2 ^ 1088 \<le> v then Inl OverflowError else Inr (v div 2 ^ 64))"

text \<open>
  \<^verbatim>\<open>int(seconds / 3600)\<close> for every integer: \<^verbatim>\<open>0 / 3600\<close> is \<^verbatim>\<open>0.0\<close>, and
  both the rounding and the truncation of a negative quotient mirror those of its
  absolute value.
\<close>

definition hours :: "int \<Rightarrow> error + int" where
  "hours seconds =
     (if seconds = 0 then Inr 0
      else if 0 < seconds then hours_pos seconds
      else (case hours_pos (- seconds) of Inl e \<Rightarrow> Inl e | Inr h \<Rightarrow> Inr (- h)))"

text \<open>\<^verbatim>\<open>Push.duration\<close>: \<^verbatim>\<open>int(sum(t.duration for t in self.tasks) / 3600)\<close>.\<close>

definition Push_duration :: "world \<Rightarrow> Push \<Rightarrow> error + int" where
  "Push_duration w self = hours (sum_list (map duration (Push_tasks w self)))"

text \<open>\<^verbatim>\<open>Push.scheduled_duration\<close>: the loop with the set \<^verbatim>\<open>seen\<close> of labels.\<close>

fun scheduled_loop :: "Task list \<Rightarrow> string set \<Rightarrow> int \<Rightarrow> int" where
  "scheduled_loop [] seen dur = dur"
| "scheduled_loop (task # ts) seen dur =
     (if label task \<notin> seen
      then scheduled_loop ts (insert (label task) seen) (dur + duration task)
      else scheduled_loop ts seen dur)"

definition Push_scheduled_duration :: "world \<Rightarrow> Push \<Rightarrow> error + int" where
  "Push_scheduled_duration w self = hours (scheduled_loop (Push_tasks w self) {} 0)"

text \<open>
  \<^verbatim>\<open>Push.candidate_regressions\<close>. The result is a Python set; it is kept as a list
  without repetitions, because \<^verbatim>\<open>Push.regressions\<close> iterates over it, and
  \<^verbatim>\<open>add\<close> appends a label that is not yet there. (The order in which Python yields
  the elements of a set is not fixed; \<open>regressions_for_cong\<close> below shows that the
  mapping computed from them is the same for every order.)
\<close>

definition failclass :: "string list" where
  "failclass = [''not classified'', ''fixed by commit'']"

definition set_add :: "'a \<Rightarrow> 'a list \<Rightarrow> 'a list" where
  "set_add x xs = (if x \<in> set xs then xs else xs @ [x])"

fun candidate_loop :: "(string \<times> LabelSummary) list \<Rightarrow> string list \<Rightarrow> string list" where
  "candidate_loop [] candidate_regressions = candidate_regressions"
| "candidate_loop ((lbl, summary) # items) candidate_regressions =
     (if LabelSummary_status summary = Some PASS
      then candidate_loop items candidate_regressions
      else if (\<forall>c \<in> LabelSummary_classifications summary. c \<notin> set failclass)
      then candidate_loop items candidate_regressions
      else candidate_loop items (set_add lbl candidate_regressions))"

definition Push_candidate_regressions :: "world \<Rightarrow> Push \<Rightarrow> error + string list" where
  "Push_candidate_regressions w self =
     (case Push_label_summaries w self of
        Inl e \<Rightarrow> Inl e
      | Inr summaries \<Rightarrow> Inr (candidate_loop summaries []))"

text \<open>
  \<^verbatim>\<open>Push.regressions\<close>, the inner \<^verbatim>\<open>while True\<close> for one label. It returns the pair
  \<^verbatim>\<open>(prior_regression, count)\<close> that the loop leaves behind at its \<^verbatim>\<open>break\<close>.
  \<^verbatim>\<open>max_depth = 5\<close> is assigned in the source and never read, so it has no part in
  the loop; the loop ends only at a push that ran the label, and \<open>None\<close> is the run
  that never ends (the walk itself goes on forever, or \<^verbatim>\<open>other.parent\<close> does).
\<close>

partial_function (option) regressions_while ::
  "world \<Rightarrow> string \<Rightarrow> Push \<Rightarrow> int \<Rightarrow> (error + bool \<times> int) option" where
  "regressions_while w lbl other count =
     (if lbl \<in> Push_task_labels w other then
        (case Push_label_summaries w other of
           Inl e \<Rightarrow> Some (Inl e)
         | Inr summaries \<Rightarrow>
             (case map_of summaries lbl of
                None \<Rightarrow> Some (Inl KeyError)
              | Some summary \<Rightarrow> Some (Inr (LabelSummary_status summary \<noteq> Some PASS, count))))
      else Option.bind (Push_parent w other)
             (\<lambda>parent. regressions_while w lbl parent (count + 1)))"

declare regressions_while.simps [code]

text \<open>
  The outer \<^verbatim>\<open>for label in self.candidate_regressions\<close>, with the dict
  \<^verbatim>\<open>regressions\<close> as an association list.
\<close>

fun regressions_for ::
  "world \<Rightarrow> Push \<Rightarrow> string list \<Rightarrow> (string \<times> int) list \<Rightarrow> (error + (string \<times> int) list) option" where
  "regressions_for w self [] regressions = Some (Inr regressions)"
| "regressions_for w self (lbl # labels) regressions =
     (case Push_parent w self of
        None \<Rightarrow> None
      | Some other \<Rightarrow>
          (case regressions_while w lbl other 0 of
             None \<Rightarrow> None
           | Some (Inl e) \<Rightarrow> Some (Inl e)
           | Some (Inr (prior_regression, count)) \<Rightarrow>
               regressions_for w self labels
                 (if \<not> prior_regression then AList.update lbl count regressions
                  else regressions)))"

definition Push_regressions :: "world \<Rightarrow> Push \<Rightarrow> (error + (string \<times> int) list) option" where
  "Push_regressions w self =
     (case Push_candidate_regressions w self of
        Inl e \<Rightarrow> Some (Inl e)
      | Inr candidate_regressions \<Rightarrow> regressions_for w self candidate_regressions [])"

text \<open>
  \<^verbatim>\<open>Push.possible_regressions\<close> and \<^verbatim>\<open>Push.likely_regressions\<close>: the labels of the
  items of \<^verbatim>\<open>self.regressions\<close> with \<^verbatim>\<open>count > 0\<close> and with \<^verbatim>\<open>count == 0\<close>.
\<close>

definition Push_possible_regressions :: "world \<Rightarrow> Push \<Rightarrow> (error + string set) option" where
  "Push_possible_regressions w self =
     (case Push_regressions w self of
        None \<Rightarrow> None
      | Some (Inl e) \<Rightarrow> Some (Inl e)
      | Some (Inr regressions) \<Rightarrow>
          Some (Inr (set (map fst (filter (\<lambda>(lbl, count). count > 0) regressions)))))"

definition Push_likely_regressions :: "world \<Rightarrow> Push \<Rightarrow> (error + string set) option" where
  "Push_likely_regressions w self =
     (case Push_regressions w self of
        None \<Rightarrow> None
      | Some (Inl e) \<Rightarrow> Some (Inl e)
      | Some (Inr regressions) \<Rightarrow>
          Some (Inr (set (map fst (filter (\<lambda>(lbl, count). count = 0) regressions)))))"

section \<open>Notions of the specification\<close>

text \<open>
  The ingestion contract in the specification's words: a record is accepted when all of
  label, duration, result and classification are present and the duration is positive,
  and the task of an accepted record carries the record's four values.
\<close>

definition spec_accepts :: "kwargs \<Rightarrow> bool" where
  "spec_accepts kw =
     (kw_label kw \<noteq> None \<and> kw_result kw \<noteq> None \<and> kw_classification kw \<noteq> None
      \<and> (case kw_duration kw of None \<Rightarrow> False | Some d \<Rightarrow> 0 < d))"

definition spec_task_of :: "kwargs \<Rightarrow> Task" where
  "spec_task_of kw =
     \<lparr>label = the (kw_label kw), duration = the (kw_duration kw),
      result = the (kw_result kw), classification = the (kw_classification kw)\<rparr>"

text \<open>
  The first-seen task of every label, in the order of the list: the task at position
  \<open>i\<close> counts when no earlier position holds a task of the same label.
\<close>

definition spec_first_seen :: "Task list \<Rightarrow> Task list" where
  "spec_first_seen ts =
     [ts ! i. i \<leftarrow> [0..<length ts], label (ts ! i) \<notin> label ` set (take i ts)]"

text \<open>
  The ancestors of a push: number \<open>0\<close> is its parent, number \<open>n + 1\<close> the parent of
  number \<open>n\<close>. \<open>None\<close> when one of the parent walks on the way does not return.
\<close>

fun ancestor :: "world \<Rightarrow> Push \<Rightarrow> nat \<Rightarrow> Push option" where
  "ancestor w self 0 = Push_parent w self"
| "ancestor w self (Suc n) = Option.bind (ancestor w self n) (Push_parent w)"

text \<open>
  The chain of revisions that the parent walk of a push follows. A revision is listed
  with another pushid when its push has a pushid different from that of the push the
  walk started at. Link \<open>0\<close> of the chain is the revision of the push itself; from a
  link none of whose listed parents has another pushid, the next link is its last listed
  parent (the link itself, when it lists no parent).
\<close>

definition other_pushid :: "world \<Rightarrow> Push \<Rightarrow> string \<Rightarrow> bool" where
  "other_pushid w self r = (Push_pushid w (Push_init r) \<noteq> Push_pushid w self)"

fun walk_other :: "world \<Rightarrow> Push \<Rightarrow> nat \<Rightarrow> Push" where
  "walk_other w self 0 = self"
| "walk_other w self (Suc n) =
     (let other = walk_other w self n; revs = hg_parents (Push_hgmo w other) in
      if revs = [] then other else Push_init (last revs))"

section \<open>A concrete history\<close>

text \<open>
  Push 10 consists of the revisions \<open>p\<close> (its tip) and \<open>pa\<close>; below it lie the pushes
  \<open>a0\<close> (push 9) down to \<open>a7\<close> (push 2), one revision each; \<open>a7\<close> has no parent, and
  so has every revision the history does not know.
\<close>

definition ex_hgmo :: "string \<Rightarrow> string \<Rightarrow> hgmo_json" where
  "ex_hgmo br r =
     (case map_of
        [(''p'', \<lparr>hg_pushid = 10, hg_parents = [''pa'']\<rparr>),
         (''pa'', \<lparr>hg_pushid = 10, hg_parents = [''a0'']\<rparr>),
         (''a0'', \<lparr>hg_pushid = 9, hg_parents = [''a1'']\<rparr>),
         (''a1'', \<lparr>hg_pushid = 8, hg_parents = [''a2'']\<rparr>),
         (''a2'', \<lparr>hg_pushid = 7, hg_parents = [''a3'']\<rparr>),
         (''a3'', \<lparr>hg_pushid = 6, hg_parents = [''a4'']\<rparr>),
         (''a4'', \<lparr>hg_pushid = 5, hg_parents = [''a5'']\<rparr>),
         (''a5'', \<lparr>hg_pushid = 4, hg_parents = [''a6'']\<rparr>),
         (''a6'', \<lparr>hg_pushid = 3, hg_parents = [''a7'']\<rparr>)] r of
        Some j \<Rightarrow> j
      | None \<Rightarrow> \<lparr>hg_pushid = 2, hg_parents = []\<rparr>)"

definition ex_record :: "string \<Rightarrow> int \<Rightarrow> string \<Rightarrow> string \<Rightarrow> kwargs" where
  "ex_record l d r c =
     \<lparr>kw_label = Some l, kw_duration = Some d, kw_result = Some r, kw_classification = Some c\<rparr>"

text \<open>
  On \<open>p\<close>: \<open>L1\<close> fails once and passes once, \<open>L2\<close>, \<open>L3\<close> and \<open>L4\<close> fail
  unexplained, \<open>L5\<close> fails with an explaining classification, \<open>L6\<close> passes; one record
  has no duration, one has duration \<open>0\<close> and one a negative duration.
  \<open>L2\<close> already failed on \<open>a0\<close>, \<open>L3\<close> passed there; \<open>L1\<close> ran next on \<open>a2\<close> and
  passed; \<open>L4\<close> ran on none of \<open>a0\<close>, ..., \<open>a5\<close> and passed on \<open>a6\<close>.
\<close>

definition ex_push_results :: "string \<Rightarrow> kwargs list" where
  "ex_push_results r =
     (case map_of
        [(''p'',
           [ex_record ''L1'' 4000 ''testfailed'' ''not classified'',
            ex_record ''L2'' 100 ''busted'' ''fixed by commit'',
            \<lparr>kw_label = Some ''L3'', kw_duration = None, kw_result = Some ''success'',
             kw_classification = Some ''not classified''\<rparr>,
            ex_record ''L1'' 3000 ''success'' ''not classified'',
            ex_record ''L3'' 200 ''exception'' ''not classified'',
            ex_record ''L6'' 0 ''testfailed'' ''not classified'',
            ex_record ''L4'' 300 ''testfailed'' ''not classified'',
            ex_record ''L5'' 400 ''testfailed'' ''intermittent'',
            ex_record ''L6'' (- 5) ''busted'' ''not classified'',
            ex_record ''L6'' 3000 ''success'' ''not classified'']),
         (''a0'',
           [ex_record ''L2'' 100 ''busted'' ''not classified'',
            ex_record ''L3'' 200 ''success'' ''not classified'']),
         (''a1'', [ex_record ''L6'' 50 ''success'' ''not classified'']),
         (''a2'', [ex_record ''L1'' 4000 ''success'' ''not classified'']),
         (''a6'', [ex_record ''L4'' 300 ''success'' ''not classified''])] r of
        Some data \<Rightarrow> data
      | None \<Rightarrow> [])"

definition ex_world :: world where
  "ex_world = \<lparr>requests_get_hgmo = ex_hgmo, run_query_push_results = ex_push_results\<rparr>"

definition ex_push :: Push where
  "ex_push = \<lparr>push_rev = ''p'', push_branch = ''autoland''\<rparr>"

text \<open>
  Two pushes with very long tasks. The one task of \<open>big\<close> ran for
  \<open>3600 * 2 ^ 43 - 1\<close> seconds; on \<open>huge\<close> a task of one second was retriggered and
  the retrigger ran for \<open>3600 * 2 ^ 1024\<close> seconds.
\<close>

definition ex_long_results :: "string \<Rightarrow> kwargs list" where
  "ex_long_results r =
     (if r = ''big'' then
        [ex_record ''B1'' (3600 * 2 ^ 43 - 1) ''success'' ''not classified'']
      else if r = ''huge'' then
        [ex_record ''H1'' 1 ''success'' ''not classified'',
         ex_record ''H1'' (3600 * 2 ^ 1024) ''success'' ''not classified'']
      else [])"

definition ex_long_world :: world where
  "ex_long_world = \<lparr>requests_get_hgmo = ex_hgmo, run_query_push_results = ex_long_results\<rparr>"

section \<open>Label summaries\<close>

lemma status_loop_INTERMITTENT:
  "status_loop (Some INTERMITTENT) ts = Some INTERMITTENT"
  by (induction ts) (simp_all add: Let_def)

lemma status_loop_PASS:
  "status_loop (Some PASS) ts =
     Some (if \<forall>t \<in> set ts. \<not> Task_failed t then PASS else INTERMITTENT)"
  by (induction ts) (simp_all add: Let_def status_loop_INTERMITTENT)

lemma status_loop_FAIL:
  "status_loop (Some FAIL) ts =
     Some (if \<forall>t \<in> set ts. Task_failed t then FAIL else INTERMITTENT)"
  by (induction ts) (simp_all add: Let_def status_loop_INTERMITTENT)

lemma status_loop_None_Cons:
  "status_loop None (t # ts) =
     Some (if \<forall>u \<in> set (t # ts). \<not> Task_failed u then PASS
           else if \<forall>u \<in> set (t # ts). Task_failed u then FAIL
           else INTERMITTENT)"
  by (simp add: Let_def status_loop_PASS status_loop_FAIL)

text \<open>
  C3. Over a non-empty task list the status is PASS exactly when no task failed, FAIL
  exactly when every task failed, and INTERMITTENT in every other case, however few
  tasks disagree: there is no majority vote.
\<close>

theorem status_all_or_intermittent:
  assumes "summary_tasks s \<noteq> []"
  shows "(LabelSummary_status s = Some PASS \<longleftrightarrow> (\<forall>t \<in> set (summary_tasks s). \<not> Task_failed t))
       \<and> (LabelSummary_status s = Some FAIL \<longleftrightarrow> (\<forall>t \<in> set (summary_tasks s). Task_failed t))
       \<and> (LabelSummary_status s = Some INTERMITTENT \<longleftrightarrow>
            (\<exists>t \<in> set (summary_tasks s). Task_failed t)
          \<and> (\<exists>t \<in> set (summary_tasks s). \<not> Task_failed t))"
proof -
  from assms obtain t ts where ts: "summary_tasks s = t # ts"
    by (cases "summary_tasks s") auto
  have st: "LabelSummary_status s =
      Some (if \<forall>u \<in> set (t # ts). \<not> Task_failed u then PASS
            else if \<forall>u \<in> set (t # ts). Task_failed u then FAIL
            else INTERMITTENT)"
    unfolding LabelSummary_status_def ts by (rule status_loop_None_Cons)
  show ?thesis
    unfolding st ts by auto
qed

text \<open>
  One passing run among three failing ones: the verdict is INTERMITTENT, neither FAIL
  (the majority) nor PASS.
\<close>

theorem status_all_or_intermittent_witness:
  "summary_tasks \<lparr>summary_label = ''L'', summary_tasks =
       [\<lparr>label = ''L'', duration = 5, result = ''testfailed'', classification = ''not classified''\<rparr>,
        \<lparr>label = ''L'', duration = 7, result = ''success'', classification = ''not classified''\<rparr>,
        \<lparr>label = ''L'', duration = 5, result = ''busted'', classification = ''not classified''\<rparr>,
        \<lparr>label = ''L'', duration = 5, result = ''exception'', classification = ''not classified''\<rparr>]\<rparr> \<noteq> []
   \<and> LabelSummary_status \<lparr>summary_label = ''L'', summary_tasks =
       [\<lparr>label = ''L'', duration = 5, result = ''testfailed'', classification = ''not classified''\<rparr>,
        \<lparr>label = ''L'', duration = 7, result = ''success'', classification = ''not classified''\<rparr>,
        \<lparr>label = ''L'', duration = 5, result = ''busted'', classification = ''not classified''\<rparr>,
        \<lparr>label = ''L'', duration = 5, result = ''exception'', classification = ''not classified''\<rparr>]\<rparr>
     = Some INTERMITTENT"
  using status_all_or_intermittent [of "\<lparr>summary_label = ''L'', summary_tasks =
       [\<lparr>label = ''L'', duration = 5, result = ''testfailed'', classification = ''not classified''\<rparr>,
        \<lparr>label = ''L'', duration = 7, result = ''success'', classification = ''not classified''\<rparr>,
        \<lparr>label = ''L'', duration = 5, result = ''busted'', classification = ''not classified''\<rparr>,
        \<lparr>label = ''L'', duration = 5, result = ''exception'', classification = ''not classified''\<rparr>]\<rparr>"]
  by (simp add: Task_failed_def)

text \<open>
  C9. Building a summary from a task list that holds a task of another label fails
  with the assertion error, and building it from tasks that all carry the summary's
  label succeeds with the summary of exactly these tasks.
\<close>

theorem LabelSummary_init_assertion:
  "((\<exists>t \<in> set ts. label t \<noteq> l) \<longrightarrow> LabelSummary_init l ts = Inl AssertionError)
   \<and> ((\<forall>t \<in> set ts. label t = l) \<longrightarrow>
        LabelSummary_init l ts = Inr \<lparr>summary_label = l, summary_tasks = ts\<rparr>)"
  by (auto simp: LabelSummary_init_def list_all_iff)

theorem LabelSummary_init_assertion_witness:
  "LabelSummary_init ''A''
      [\<lparr>label = ''A'', duration = 1, result = ''success'', classification = ''not classified''\<rparr>,
       \<lparr>label = ''B'', duration = 1, result = ''success'', classification = ''not classified''\<rparr>]
     = Inl AssertionError
   \<and> LabelSummary_init ''A''
      [\<lparr>label = ''A'', duration = 1, result = ''success'', classification = ''not classified''\<rparr>,
       \<lparr>label = ''A'', duration = 2, result = ''busted'', classification = ''not classified''\<rparr>]
     = Inr \<lparr>summary_label = ''A'', summary_tasks =
      [\<lparr>label = ''A'', duration = 1, result = ''success'', classification = ''not classified''\<rparr>,
       \<lparr>label = ''A'', duration = 2, result = ''busted'', classification = ''not classified''\<rparr>]\<rparr>"
  using LabelSummary_init_assertion [of
      "[\<lparr>label = ''A'', duration = 1, result = ''success'', classification = ''not classified''\<rparr>,
        \<lparr>label = ''B'', duration = 1, result = ''success'', classification = ''not classified''\<rparr>]"
      "''A''"]
    LabelSummary_init_assertion [of
      "[\<lparr>label = ''A'', duration = 1, result = ''success'', classification = ''not classified''\<rparr>,
        \<lparr>label = ''A'', duration = 2, result = ''busted'', classification = ''not classified''\<rparr>]"
      "''A''"]
  by simp

section \<open>Ingestion of task records\<close>

lemma tasks_loop_eq:
  "tasks_loop data acc = acc @ map spec_task_of (filter spec_accepts data)"
  by (induction data arbitrary: acc)
     (auto simp: spec_accepts_def spec_task_of_def split: option.splits)

lemma Push_tasks_eq:
  "Push_tasks w self =
     map spec_task_of (filter spec_accepts (run_query_push_results w (push_rev self)))"
  by (simp add: Push_tasks_def tasks_loop_eq)

lemma Push_tasks_positive:
  "t \<in> set (Push_tasks w self) \<Longrightarrow> 0 < duration t"
  by (auto simp: Push_tasks_eq spec_accepts_def spec_task_of_def split: option.splits)

lemmas ex_history =
  ex_world_def ex_push_def ex_hgmo_def ex_push_results_def ex_record_def

text \<open>
  C7. The tasks of a push are the tasks of the accepted records of the query, one for
  each and in the query's order: a record yields a task exactly when its four fields are
  present and its duration is positive. Hence no task of a push has a duration of zero
  or less.
\<close>

theorem tasks_sanitized:
  "Push_tasks w self =
     map spec_task_of (filter spec_accepts (run_query_push_results w (push_rev self)))
   \<and> (\<forall>t \<in> set (Push_tasks w self). 0 < duration t)"
  using Push_tasks_eq [of w self] Push_tasks_positive [of _ w self] by blast

text \<open>
  Of the ten records of \<open>p\<close> seven are kept: the record without a duration, the one of
  duration \<open>0\<close> and the one of duration \<open>- 5\<close> are gone.
\<close>

theorem tasks_sanitized_witness:
  "Push_tasks ex_world ex_push =
     [\<lparr>label = ''L1'', duration = 4000, result = ''testfailed'', classification = ''not classified''\<rparr>,
      \<lparr>label = ''L2'', duration = 100, result = ''busted'', classification = ''fixed by commit''\<rparr>,
      \<lparr>label = ''L1'', duration = 3000, result = ''success'', classification = ''not classified''\<rparr>,
      \<lparr>label = ''L3'', duration = 200, result = ''exception'', classification = ''not classified''\<rparr>,
      \<lparr>label = ''L4'', duration = 300, result = ''testfailed'', classification = ''not classified''\<rparr>,
      \<lparr>label = ''L5'', duration = 400, result = ''testfailed'', classification = ''intermittent''\<rparr>,
      \<lparr>label = ''L6'', duration = 3000, result = ''success'', classification = ''not classified''\<rparr>]"
  using tasks_sanitized [of ex_world ex_push]
  by (simp add: ex_history spec_accepts_def spec_task_of_def)

section \<open>The float quotient\<close>

lemma bit_length_nonpos [simp]: "n \<le> 0 \<Longrightarrow> bit_length n = 0"
  by (simp add: bit_length.simps)

lemma bit_length_lt: "n < 2 ^ bit_length n"
proof (induction n rule: bit_length.induct)
  case (1 n)
  show ?case
  proof (cases "n \<le> 0")
    case True
    then show ?thesis by simp
  next
    case False
    with 1 have "n div 2 < 2 ^ bit_length (n div 2)" by simp
    then have "n < 2 * 2 ^ bit_length (n div 2)" by linarith
    with False show ?thesis by (subst bit_length.simps) simp
  qed
qed

lemma bit_length_ge: "0 < n \<Longrightarrow> 2 ^ (bit_length n - 1) \<le> n"
proof (induction n rule: bit_length.induct)
  case (1 n)
  show ?case
  proof (cases "n div 2 \<le> 0")
    case True
    with 1(2) have "n = 1" by linarith
    then show ?thesis by (simp add: bit_length.simps)
  next
    case False
    then have pos: "0 < n div 2" by simp
    with 1 have ih: "2 ^ (bit_length (n div 2) - 1) \<le> n div 2" by simp
    from pos have "0 < bit_length (n div 2)"
      by (subst bit_length.simps) simp
    then have "bit_length n - 1 = Suc (bit_length (n div 2) - 1)"
      using 1(2) by (subst bit_length.simps) simp
    moreover from ih have "2 * 2 ^ (bit_length (n div 2) - 1) \<le> n" by linarith
    ultimately show ?thesis by simp
  qed
qed

lemma bit_length_le: "n < 2 ^ k \<Longrightarrow> bit_length n \<le> k"
proof (rule ccontr)
  assume n: "n < 2 ^ k" and nk: "\<not> bit_length n \<le> k"
  then have k: "k \<le> bit_length n - 1" by simp
  have "0 < n"
    using nk by (cases "n \<le> 0") simp_all
  then have "(2::int) ^ (bit_length n - 1) \<le> n" by (rule bit_length_ge)
  moreover have "(2::int) ^ k \<le> 2 ^ (bit_length n - 1)"
    using k by (rule power_increasing) simp
  ultimately have "2 ^ k \<le> n" by (rule order_trans [rotated])
  with n show False by simp
qed

lemma bit_length_gt: "2 ^ k \<le> n \<Longrightarrow> k < bit_length n"
proof (rule ccontr)
  assume n: "2 ^ k \<le> n" and "\<not> k < bit_length n"
  then have "bit_length n \<le> k" by simp
  then have "(2::int) ^ bit_length n \<le> 2 ^ k"
    by (rule power_increasing) simp
  with bit_length_lt [of n] n show False by simp
qed

lemma bit_length_mono: "m \<le> n \<Longrightarrow> bit_length m \<le> bit_length n"
proof (rule bit_length_le)
  assume "m \<le> n"
  with bit_length_lt [of n] show "m < 2 ^ bit_length n" by simp
qed

lemma round_half_even_ge:
  assumes "0 < y" and "y * l \<le> x"
  shows "l \<le> round_half_even x y"
proof -
  from assms have "l \<le> x div y"
    by (metis mult.commute zdiv_mono1 nonzero_mult_div_cancel_left less_irrefl)
  then show ?thesis
    by (simp add: round_half_even_def Let_def)
qed

lemma round_half_even_le_half:
  assumes "0 < y" and "2 * x < y * (2 * u + 1)"
  shows "round_half_even x y \<le> u"
proof -
  let ?q = "x div y" and ?r = "x mod y"
  have x: "x = y * ?q + ?r" by simp
  have r: "0 \<le> ?r" "?r < y" using assms(1) by simp_all
  show ?thesis
  proof (cases "?q < u")
    case True
    then show ?thesis by (simp add: round_half_even_def Let_def)
  next
    case False
    then have uq: "u \<le> ?q" by simp
    have "y * (2 * u + 1) \<le> y * (2 * ?q + 1)"
      using uq assms(1) by (simp add: mult_left_mono)
    moreover have "y * (2 * ?q + 1) = 2 * (y * ?q) + y"
      by (simp add: algebra_simps)
    moreover have "y * ?q + ?r = x" by simp
    ultimately have half: "2 * ?r < y"
      using assms(2) by linarith
    have "\<not> u < ?q"
    proof
      assume "u < ?q"
      then have "u + 1 \<le> ?q" by simp
      then have "y * (u + 1) \<le> y * ?q" using assms(1) by (simp add: mult_left_mono)
      moreover have "y * ?q + ?r = x" by simp
      moreover have "y * (u + 1) = y * u + y" by (simp add: algebra_simps)
      moreover have "y * (2 * u + 1) = 2 * (y * u) + y" by (simp add: algebra_simps)
      ultimately show False using assms r by linarith
    qed
    with uq have "?q = u" by simp
    with half show ?thesis by (simp add: round_half_even_def Let_def)
  qed
qed

lemma round_half_even_le:
  assumes "0 < y" and "x \<le> y * u"
  shows "round_half_even x y \<le> u"
proof (rule round_half_even_le_half [OF assms(1)])
  from assms have "2 * x \<le> y * (2 * u)" by simp
  with assms(1) show "2 * x < y * (2 * u + 1)" by (simp add: algebra_simps)
qed

lemma round_half_even_mono:
  assumes "0 < y" and "x \<le> x'"
  shows "round_half_even x y \<le> round_half_even x' y"
proof (cases "x div y = x' div y")
  case True
  have "x mod y \<le> x' mod y"
    using assms(2) True by (metis add_le_cancel_left mult_div_mod_eq)
  with True show ?thesis
    by (auto simp: round_half_even_def Let_def)
next
  case False
  with assms have "x div y < x' div y"
    using zdiv_mono1 [of x x' y] by simp
  then show ?thesis
    by (auto simp: round_half_even_def Let_def)
qed


lemma div_3600_lower: "3600 * (n div 3600) \<le> (n::int)"
proof -
  have "3600 * (n div 3600) \<le> 3600 * (n div 3600) + n mod 3600" by simp
  then show ?thesis by simp
qed

lemma div_3600_upper: "(n::int) < 3600 * (n div 3600 + 1)"
proof -
  have "n = 3600 * (n div 3600) + n mod 3600" by simp
  also have "\<dots> < 3600 * (n div 3600) + 3600" by (rule add_strict_left_mono) simp
  finally show ?thesis by (simp add: algebra_simps)
qed

lemma scaled_quotient_shift:
  assumes "1 \<le> a"
  shows "53 \<le> bit_length (a * 2 ^ 64 div 3600)"
proof -
  have "(2::int) ^ 64 div 3600 \<le> a * 2 ^ 64 div 3600"
    using assms by (intro zdiv_mono1) simp_all
  moreover have "(2::int) ^ 52 \<le> 2 ^ 64 div 3600" by simp
  ultimately have "(2::int) ^ 52 \<le> a * 2 ^ 64 div 3600" by (rule order_trans [rotated])
  then have "52 < bit_length (a * 2 ^ 64 div 3600)" by (rule bit_length_gt)
  then show ?thesis by simp
qed

lemma scaled_quotient_significand:
  assumes "1 \<le> a"
  defines "n \<equiv> a * 2 ^ 64"
  defines "shift \<equiv> bit_length (n div 3600) - 53"
  shows "3600 * 2 ^ shift * 2 ^ 52 \<le> n" and "n \<le> 3600 * 2 ^ shift * 2 ^ 53"
proof -
  let ?f = "n div 3600"
  have k: "bit_length ?f = shift + 53"
    using scaled_quotient_shift [OF assms(1)] by (simp add: shift_def n_def)
  have "0 < ?f"
    using k by (cases "?f \<le> 0") simp_all
  then have "2 ^ (bit_length ?f - 1) \<le> ?f" by (rule bit_length_ge)
  then have lo: "2 ^ (shift + 52) \<le> ?f" by (simp add: k ac_simps)
  have "3600 * ?f \<le> n" by (rule div_3600_lower)
  with lo have "3600 * 2 ^ (shift + 52) \<le> n" by linarith
  then show "3600 * 2 ^ shift * 2 ^ 52 \<le> n" by (simp add: power_add)
  have "?f < 2 ^ (shift + 53)"
    using bit_length_lt [of ?f] by (simp add: k ac_simps)
  then have hi: "?f + 1 \<le> 2 ^ (shift + 53)" by simp
  have "n < 3600 * (?f + 1)" by (rule div_3600_upper)
  with hi have "n \<le> 3600 * 2 ^ (shift + 53)" by linarith
  then show "n \<le> 3600 * 2 ^ shift * 2 ^ 53" by (simp add: power_add)
qed

lemma scaled_quotient_bounds:
  assumes "1 \<le> a"
  shows "2 ^ 52 * 2 ^ (bit_length (a * 2 ^ 64 div 3600) - 53) \<le> scaled_quotient a"
    and "scaled_quotient a \<le> 2 ^ 53 * 2 ^ (bit_length (a * 2 ^ 64 div 3600) - 53)"
proof -
  let ?n = "a * 2 ^ 64"
  let ?shift = "bit_length (?n div 3600) - 53"
  let ?y = "3600 * 2 ^ ?shift :: int"
  have y: "0 < ?y" by simp
  have p: "(0::int) \<le> 2 ^ ?shift" by simp
  from scaled_quotient_significand(1) [OF assms]
  have "?y * 2 ^ 52 \<le> ?n" by simp
  then have "2 ^ 52 \<le> round_half_even ?n ?y"
    by (rule round_half_even_ge [OF y])
  then have "2 ^ 52 * 2 ^ ?shift \<le> round_half_even ?n ?y * 2 ^ ?shift"
    using p by (rule mult_right_mono)
  then show "2 ^ 52 * 2 ^ ?shift \<le> scaled_quotient a"
    by (simp add: scaled_quotient_def Let_def)
  from scaled_quotient_significand(2) [OF assms]
  have "?n \<le> ?y * 2 ^ 53" by simp
  then have "round_half_even ?n ?y \<le> 2 ^ 53"
    by (rule round_half_even_le [OF y])
  then have "round_half_even ?n ?y * 2 ^ ?shift \<le> 2 ^ 53 * 2 ^ ?shift"
    using p by (rule mult_right_mono)
  then show "scaled_quotient a \<le> 2 ^ 53 * 2 ^ ?shift"
    by (simp add: scaled_quotient_def Let_def)
qed

lemma scaled_quotient_mono:
  assumes "1 \<le> a" and "a \<le> b"
  shows "scaled_quotient a \<le> scaled_quotient b"
proof -
  let ?sa = "bit_length (a * 2 ^ 64 div 3600) - 53"
  let ?sb = "bit_length (b * 2 ^ 64 div 3600) - 53"
  from assms have b: "1 \<le> b" by simp
  have n: "a * 2 ^ 64 \<le> b * 2 ^ 64" using assms(2) by simp
  then have "a * 2 ^ 64 div 3600 \<le> b * 2 ^ 64 div 3600"
    by (rule zdiv_mono1) simp
  then have "bit_length (a * 2 ^ 64 div 3600) \<le> bit_length (b * 2 ^ 64 div 3600)"
    by (rule bit_length_mono)
  then have s: "?sa \<le> ?sb" by simp
  show ?thesis
  proof (cases "?sa = ?sb")
    case True
    have "round_half_even (a * 2 ^ 64) (3600 * 2 ^ ?sb)
        \<le> round_half_even (b * 2 ^ 64) (3600 * 2 ^ ?sb)"
      using n by (intro round_half_even_mono) simp_all
    then have "round_half_even (a * 2 ^ 64) (3600 * 2 ^ ?sb) * 2 ^ ?sb
        \<le> round_half_even (b * 2 ^ 64) (3600 * 2 ^ ?sb) * 2 ^ ?sb"
      by (rule mult_right_mono) simp
    with True show ?thesis
      by (simp add: scaled_quotient_def Let_def)
  next
    case False
    with s have "Suc ?sa \<le> ?sb" by simp
    then have "(2::int) ^ Suc ?sa \<le> 2 ^ ?sb"
      by (rule power_increasing) simp
    then have "2 ^ 52 * (2::int) ^ Suc ?sa \<le> 2 ^ 52 * 2 ^ ?sb"
      by (rule mult_left_mono) simp
    moreover have "2 ^ 53 * (2::int) ^ ?sa = 2 ^ 52 * 2 ^ Suc ?sa" by simp
    ultimately have "2 ^ 53 * (2::int) ^ ?sa \<le> 2 ^ 52 * 2 ^ ?sb" by simp
    with scaled_quotient_bounds(2) [OF assms(1)] scaled_quotient_bounds(1) [OF b]
    show ?thesis by linarith
  qed
qed

lemma scaled_quotient_exact:
  assumes "1 \<le> a" and "a < 3600 * 2 ^ 42"
  shows "(a div 3600) * 2 ^ 64 \<le> scaled_quotient a"
    and "scaled_quotient a < (a div 3600 + 1) * 2 ^ 64"
proof -
  let ?n = "a * 2 ^ 64"
  let ?q = "a div 3600"
  define shift where "shift = bit_length (?n div 3600) - 53"
  define P :: int where "P = 2 ^ shift"
  define T :: int where "T = 2 ^ (64 - shift)"
  let ?y = "3600 * P"
  let ?m = "round_half_even ?n ?y"
  have sq: "scaled_quotient a = ?m * P"
    by (simp add: scaled_quotient_def Let_def shift_def P_def)
  have "?n div 3600 < 2 ^ 106"
  proof -
    have "?n < 3600 * 2 ^ 42 * 2 ^ 64" using assms(2) by simp
    then have "?n < 3600 * 2 ^ 106" by simp
    moreover have "3600 * (?n div 3600) \<le> ?n" by (rule div_3600_lower)
    ultimately show ?thesis by linarith
  qed
  then have "bit_length (?n div 3600) \<le> 106" by (rule bit_length_le)
  then have shift: "shift \<le> 53" by (simp add: shift_def)
  have "(2::int) ^ shift \<le> 2 ^ 53"
    using shift by (rule power_increasing) simp
  then have P: "0 < P" "P \<le> 2 ^ 53"
    by (simp_all add: P_def)
  have PT: "P * T = 2 ^ 64"
    using shift by (simp add: P_def T_def flip: power_add)
  have T: "0 < T" by (simp add: T_def)
  have y: "0 < ?y" using P by simp
  have a: "3600 * ?q \<le> a" "a \<le> 3600 * ?q + 3599"
    using div_3600_lower [of a] div_3600_upper [of a] by simp_all
  have "?y * (?q * T) = 3600 * ?q * (P * T)" by (simp add: algebra_simps)
  also have "\<dots> = 3600 * ?q * 2 ^ 64" by (simp only: PT)
  also have "\<dots> \<le> ?n" using a(1) by simp
  finally have "?q * T \<le> ?m" by (rule round_half_even_ge [OF y])
  then have "?q * T * P \<le> ?m * P" using P(1) by (simp add: mult_right_mono)
  moreover have "?q * T * P = ?q * 2 ^ 64" using PT by (simp add: algebra_simps)
  ultimately show "?q * 2 ^ 64 \<le> scaled_quotient a" by (simp add: sq)
  have "2 * ?n < ?y * (2 * ((?q + 1) * T - 1) + 1)"
  proof -
    have "?y * (2 * ((?q + 1) * T - 1) + 1) = 7200 * (?q + 1) * (P * T) - 3600 * P"
      by (simp add: algebra_simps)
    also have "\<dots> = 7200 * (?q + 1) * 2 ^ 64 - 3600 * P" by (simp only: PT)
    finally have e: "?y * (2 * ((?q + 1) * T - 1) + 1) = 7200 * (?q + 1) * 2 ^ 64 - 3600 * P" .
    have "2 * ?n \<le> 2 * (3600 * ?q + 3599) * 2 ^ 64" using a(2) by simp
    moreover have "3600 * P < 2 * 2 ^ 64" using P(2) by simp
    ultimately show ?thesis unfolding e by (simp add: algebra_simps)
  qed
  then have "?m \<le> (?q + 1) * T - 1" by (rule round_half_even_le_half [OF y])
  then have "?m * P \<le> ((?q + 1) * T - 1) * P" using P(1) by (simp add: mult_right_mono)
  moreover have "((?q + 1) * T - 1) * P = (?q + 1) * 2 ^ 64 - P"
    using PT by (simp add: algebra_simps)
  ultimately show "scaled_quotient a < (?q + 1) * 2 ^ 64" using P(1) by (simp add: sq)
qed

text \<open>
  Below \<open>3600 * 2 ^ 42\<close> seconds (more than \<open>2 ^ 53\<close>) the float quotient is less
  than \<open>2 ^ 42\<close>, its spacing is at most \<open>2 ^ - 11\<close>, less than \<open>1 / 3600\<close>, and the
  rounding never reaches the next integer: the result is the integer quotient.
\<close>

lemma hours_exact:
  assumes "0 \<le> s" and "s < 3600 * 2 ^ 42"
  shows "hours s = Inr (s div 3600)"
proof (cases "s = 0")
  case True
  then show ?thesis by (simp add: hours_def)
next
  case False
  with assms(1) have s: "1 \<le> s" by simp
  note lo = scaled_quotient_exact(1) [OF s assms(2)]
  note hi = scaled_quotient_exact(2) [OF s assms(2)]
  have "s div 3600 + 1 \<le> 2 ^ 42" using assms(2) by simp
  then have "(s div 3600 + 1) * 2 ^ 64 \<le> 2 ^ 42 * 2 ^ 64" by (rule mult_right_mono) simp
  with hi have small: "scaled_quotient s < 2 ^ 1088" by simp
  have "scaled_quotient s div 2 ^ 64 = s div 3600"
  proof (rule int_div_pos_eq)
    show "scaled_quotient s = 2 ^ 64 * (s div 3600) + (scaled_quotient s - 2 ^ 64 * (s div 3600))"
      by simp
    show "0 \<le> scaled_quotient s - 2 ^ 64 * (s div 3600)" using lo by simp
    show "scaled_quotient s - 2 ^ 64 * (s div 3600) < 2 ^ 64" using hi by (simp add: algebra_simps)
  qed
  with small s show ?thesis by (simp add: hours_def hours_pos_def Let_def)
qed

lemma hours_nonneg_result:
  assumes "0 \<le> a" and "hours a = Inr x"
  shows "0 \<le> x"
proof (cases "a = 0")
  case True
  with assms(2) show ?thesis by (simp add: hours_def)
next
  case False
  with assms(1) have a: "1 \<le> a" by simp
  have "(0::int) \<le> 2 ^ 52 * 2 ^ (bit_length (a * 2 ^ 64 div 3600) - 53)" by simp
  with scaled_quotient_bounds(1) [OF a] have "0 \<le> scaled_quotient a" by linarith
  then have "0 \<le> scaled_quotient a div 2 ^ 64" by (simp add: pos_imp_zdiv_nonneg_iff)
  with assms(2) a show ?thesis
    by (auto simp: hours_def hours_pos_def Let_def split: if_splits)
qed

text \<open>
  Rounding to the nearest float is monotone; so is the overflow.
\<close>

lemma hours_mono:
  assumes "0 \<le> a" and "a \<le> b" and "hours b = Inr y"
  shows "\<exists>x. hours a = Inr x \<and> x \<le> y"
proof (cases "a = 0")
  case True
  from assms have "0 \<le> y" using hours_nonneg_result [of b y] by simp
  with True show ?thesis by (simp add: hours_def)
next
  case False
  with assms(1) have a: "1 \<le> a" by simp
  with assms(2) have b: "1 \<le> b" by simp
  from assms(3) b have vb: "scaled_quotient b < 2 ^ 1088" and y: "y = scaled_quotient b div 2 ^ 64"
    by (auto simp: hours_def hours_pos_def Let_def split: if_splits)
  have le: "scaled_quotient a \<le> scaled_quotient b" by (rule scaled_quotient_mono [OF a assms(2)])
  with vb have va: "scaled_quotient a < 2 ^ 1088" by simp
  have "scaled_quotient a div 2 ^ 64 \<le> scaled_quotient b div 2 ^ 64"
    using le by (rule zdiv_mono1) simp
  with va a y show ?thesis by (simp add: hours_def hours_pos_def Let_def)
qed

section \<open>Durations\<close>

lemma sum_durations_nonneg:
  "\<forall>t \<in> set ts. 0 \<le> duration t \<Longrightarrow> 0 \<le> sum_list (map duration ts)"
  by (induction ts) simp_all

lemma scheduled_loop_eq:
  "scheduled_loop ts seen dur =
     dur + sum_list (map duration
       [ts ! i. i \<leftarrow> [0..<length ts], label (ts ! i) \<notin> seen \<union> label ` set (take i ts)])"
proof (induction ts arbitrary: seen dur)
  case Nil
  then show ?case by simp
next
  case (Cons t ts)
  have upt: "[0..<length (t # ts)] = 0 # map Suc [0..<length ts]"
    by (simp add: upt_conv_Cons map_Suc_upt del: upt_Suc)
  show ?case
    unfolding upt by (auto simp: Cons.IH comp_def conj_ac cong: if_cong
        intro!: arg_cong [where f = "\<lambda>xs. sum_list (map duration (concat xs))"])
qed

lemma scheduled_loop_first_seen:
  "scheduled_loop ts {} 0 = sum_list (map duration (spec_first_seen ts))"
  by (simp add: scheduled_loop_eq spec_first_seen_def)

lemma scheduled_loop_le:
  "\<forall>t \<in> set ts. 0 \<le> duration t \<Longrightarrow>
     scheduled_loop ts seen dur \<le> dur + sum_list (map duration ts)"
proof (induction ts arbitrary: seen dur)
  case Nil
  then show ?case by simp
next
  case (Cons t ts)
  from Cons.prems have nn: "0 \<le> duration t" and rest: "\<forall>t \<in> set ts. 0 \<le> duration t"
    by simp_all
  show ?case
    using Cons.IH [OF rest, where seen = "insert (label t) seen" and dur = "dur + duration t"]
      Cons.IH [OF rest, where seen = seen and dur = dur] nn
    by simp
qed

lemma scheduled_loop_ge:
  "\<forall>t \<in> set ts. 0 \<le> duration t \<Longrightarrow> dur \<le> scheduled_loop ts seen dur"
proof (induction ts arbitrary: seen dur)
  case Nil
  then show ?case by simp
next
  case (Cons t ts)
  from Cons.prems have nn: "0 \<le> duration t" and rest: "\<forall>t \<in> set ts. 0 \<le> duration t"
    by simp_all
  show ?case
    using Cons.IH [OF rest, where seen = "insert (label t) seen" and dur = "dur + duration t"]
      Cons.IH [OF rest, where seen = seen and dur = dur] nn
    by simp
qed

lemma Push_tasks_nonneg: "\<forall>t \<in> set (Push_tasks w self). 0 \<le> duration t"
  using Push_tasks_positive [of _ w self] by (auto intro: less_imp_le)

lemma Push_scheduled_le_sum:
  "0 \<le> scheduled_loop (Push_tasks w self) {} 0
   \<and> scheduled_loop (Push_tasks w self) {} 0 \<le> sum_list (map duration (Push_tasks w self))"
proof -
  have nn: "\<forall>t \<in> set (Push_tasks w self). 0 \<le> duration t"
    by (rule Push_tasks_nonneg)
  from scheduled_loop_ge [OF nn, where seen = "{}" and dur = 0]
    scheduled_loop_le [OF nn, where seen = "{}" and dur = 0]
  show ?thesis by simp
qed

text \<open>
  C8, as the code has it. When the durations of all tasks of a push sum to less than
  \<open>3600 * 2 ^ 42 = 15832967439974400\<close> seconds, the duration of the push is that
  sum divided by 3600 and truncated, and the scheduled duration is the same for the
  first-seen task of every label, in the order of the task list. Neither sum is
  negative, so the truncated quotient is the integer quotient \<open>div\<close>.
\<close>

theorem durations_truncated_sums:
  assumes "sum_list (map duration (Push_tasks w self)) < 3600 * 2 ^ 42"
  shows "0 \<le> sum_list (map duration (Push_tasks w self))
   \<and> Push_duration w self = Inr (sum_list (map duration (Push_tasks w self)) div 3600)
   \<and> 0 \<le> sum_list (map duration (spec_first_seen (Push_tasks w self)))
   \<and> Push_scheduled_duration w self =
       Inr (sum_list (map duration (spec_first_seen (Push_tasks w self))) div 3600)"
proof -
  let ?ts = "Push_tasks w self"
  have all: "0 \<le> sum_list (map duration ?ts)"
    by (rule sum_durations_nonneg [OF Push_tasks_nonneg])
  from Push_scheduled_le_sum [of w self]
  have first: "0 \<le> sum_list (map duration (spec_first_seen ?ts))"
    and le: "sum_list (map duration (spec_first_seen ?ts)) \<le> sum_list (map duration ?ts)"
    by (simp_all add: scheduled_loop_first_seen)
  from le assms have small: "sum_list (map duration (spec_first_seen ?ts)) < 3600 * 2 ^ 42"
    by simp
  have d: "Push_duration w self = Inr (sum_list (map duration ?ts) div 3600)"
    unfolding Push_duration_def by (rule hours_exact [OF all assms])
  have s: "Push_scheduled_duration w self =
      Inr (sum_list (map duration (spec_first_seen ?ts)) div 3600)"
    unfolding Push_scheduled_duration_def scheduled_loop_first_seen
    by (rule hours_exact [OF first small])
  from all first d s show ?thesis by blast
qed

text \<open>
  On \<open>p\<close> the seven tasks run for 11000 seconds, 3 whole hours; without the retrigger
  of \<open>L1\<close> they run for 8000 seconds, 2 whole hours.
\<close>

theorem durations_truncated_sums_witness:
  "sum_list (map duration (Push_tasks ex_world ex_push)) = 11000
   \<and> Push_duration ex_world ex_push = Inr 3
   \<and> Push_scheduled_duration ex_world ex_push = Inr 2"
proof -
  have t: "sum_list (map duration (Push_tasks ex_world ex_push)) = 11000"
    by (simp add: Push_tasks_eq ex_history spec_accepts_def spec_task_of_def)
  have f: "sum_list (map duration (spec_first_seen (Push_tasks ex_world ex_push))) = 8000"
    by (simp add: Push_tasks_eq ex_history spec_accepts_def spec_task_of_def
        spec_first_seen_def upt_rec)
  have "sum_list (map duration (Push_tasks ex_world ex_push)) < 3600 * 2 ^ 42"
    unfolding t by simp
  from durations_truncated_sums [OF this] show ?thesis
    unfolding t f by simp
qed

text \<open>
  The one task of \<open>big\<close> ran for \<open>3600 * 2 ^ 43 - 1\<close> seconds, one second less than
  \<open>2 ^ 43\<close> hours. The truncated quotient is \<open>2 ^ 43 - 1 = 8796093022207\<close>; the duration
  of the push is \<open>2 ^ 43 = 8796093022208\<close>, because the float nearest to the quotient is
  \<open>2 ^ 43\<close>.
\<close>

theorem duration_rounds_up:
  "sum_list (map duration (Push_tasks ex_long_world (Push_init ''big''))) div 3600
     = 8796093022207
   \<and> Push_duration ex_long_world (Push_init ''big'') = Inr 8796093022208"
  by code_simp

text \<open>
  C10, as the code has it. Whenever the duration of a push is computed, so is its
  scheduled duration, and it does not exceed the duration: every task of a push has a
  positive duration, the first-seen tasks are some of the tasks, and the float quotient
  and its truncation are monotone. Both are computed when the durations sum to less than
  \<open>3600 * 2 ^ 42\<close> seconds.
\<close>

theorem scheduled_duration_le_duration:
  "(\<forall>d. Push_duration w self = Inr d \<longrightarrow>
        (\<exists>s. Push_scheduled_duration w self = Inr s \<and> s \<le> d))
   \<and> (sum_list (map duration (Push_tasks w self)) < 3600 * 2 ^ 42 \<longrightarrow>
        (\<exists>s d. Push_scheduled_duration w self = Inr s \<and> Push_duration w self = Inr d
           \<and> s \<le> d))"
proof -
  let ?ts = "Push_tasks w self"
  from Push_scheduled_le_sum [of w self]
  have lo: "0 \<le> scheduled_loop ?ts {} 0"
    and le: "scheduled_loop ?ts {} 0 \<le> sum_list (map duration ?ts)"
    by simp_all
  have mono: "\<exists>s. Push_scheduled_duration w self = Inr s \<and> s \<le> d"
    if "Push_duration w self = Inr d" for d
    using that hours_mono [OF lo le, of d]
    by (simp add: Push_duration_def Push_scheduled_duration_def)
  moreover have "\<exists>d. Push_duration w self = Inr d"
    if "sum_list (map duration ?ts) < 3600 * 2 ^ 42"
    using hours_exact [OF _ that] lo le by (simp add: Push_duration_def)
  ultimately show ?thesis by blast
qed

theorem scheduled_duration_le_duration_witness:
  "Push_duration ex_world ex_push = Inr 3
   \<and> Push_scheduled_duration ex_world ex_push = Inr 2"
proof -
  have d: "Push_duration ex_world ex_push = Inr 3"
    by code_simp
  from scheduled_duration_le_duration [of ex_world ex_push] d
  obtain s where s: "Push_scheduled_duration ex_world ex_push = Inr s" and "s \<le> 3"
    by blast
  moreover have "Push_scheduled_duration ex_world ex_push = Inr 2"
    by code_simp
  ultimately show ?thesis using d by simp
qed

text \<open>
  On \<open>huge\<close> the first-seen task ran for one second, so the scheduled duration is 0;
  all tasks ran for \<open>3600 * 2 ^ 1024 + 1\<close> seconds, the quotient does not fit a float,
  and the duration raises \<^verbatim>\<open>OverflowError\<close>: there is no duration to compare with.
\<close>

theorem duration_overflows:
  "Push_scheduled_duration ex_long_world (Push_init ''huge'') = Inr 0
   \<and> Push_duration ex_long_world (Push_init ''huge'') = Inl OverflowError"
  by code_simp

section \<open>Grouping by label and candidate regressions\<close>

lemma map_of_labels_append:
  "map_of (labels_append acc t) l =
     (if l = label t
      then Some ((case map_of acc l of None \<Rightarrow> [] | Some ts \<Rightarrow> ts) @ [t])
      else map_of acc l)"
  by (simp add: labels_append_def update_conv')

lemma distinct_labels_append:
  "distinct (map fst acc) \<Longrightarrow> distinct (map fst (labels_append acc t))"
  by (simp add: labels_append_def distinct_update)

lemma distinct_grouped:
  "distinct (map fst acc) \<Longrightarrow> distinct (map fst (foldl labels_append acc ts))"
  by (induction ts arbitrary: acc) (simp_all add: distinct_labels_append)

lemma map_of_grouped:
  "map_of (foldl labels_append acc ts) l =
     (case map_of acc l of
        None \<Rightarrow> (if l \<in> label ` set ts then Some (filter (\<lambda>t. label t = l) ts) else None)
      | Some old \<Rightarrow> Some (old @ filter (\<lambda>t. label t = l) ts))"
proof (induction ts arbitrary: acc)
  case Nil
  then show ?case by (simp split: option.splits)
next
  case (Cons t ts)
  show ?case
    by (auto simp: Cons.IH map_of_labels_append split: option.splits)
qed

lemma map_of_grouped_Nil:
  "map_of (foldl labels_append [] ts) l =
     (if l \<in> label ` set ts then Some (filter (\<lambda>t. label t = l) ts) else None)"
  by (simp add: map_of_grouped)

lemma summaries_of_grouped:
  "\<forall>(l, g) \<in> set items. \<forall>t \<in> set g. label t = l \<Longrightarrow>
     summaries_of items =
       Inr (map (\<lambda>(l, g). (l, \<lparr>summary_label = l, summary_tasks = g\<rparr>)) items)"
  by (induction items) (auto simp: LabelSummary_init_def list_all_iff)

lemma grouped_labels:
  assumes "(l, g) \<in> set (foldl labels_append [] ts)"
  shows "g = filter (\<lambda>t. label t = l) ts"
proof -
  have "distinct (map fst (foldl labels_append [] ts))"
    by (rule distinct_grouped) simp
  with assms have "map_of (foldl labels_append [] ts) l = Some g"
    by simp
  then show ?thesis
    by (simp add: map_of_grouped_Nil split: if_splits)
qed

lemma label_summaries_Inr:
  "Push_label_summaries w self =
     Inr (map (\<lambda>(l, g). (l, \<lparr>summary_label = l, summary_tasks = g\<rparr>))
            (foldl labels_append [] (Push_tasks w self)))"
  unfolding Push_label_summaries_def
  by (rule summaries_of_grouped) (auto dest: grouped_labels)

lemma map_of_map_snd:
  "map_of (map (\<lambda>(k, v). (k, f k v)) al) k = map_option (f k) (map_of al k)"
  by (induction al) auto

lemma label_summaries_char:
  "\<exists>summaries. Push_label_summaries w self = Inr summaries
     \<and> distinct (map fst summaries)
     \<and> (\<forall>l. map_of summaries l =
          (if l \<in> Push_task_labels w self
           then Some \<lparr>summary_label = l,
                  summary_tasks = filter (\<lambda>t. label t = l) (Push_tasks w self)\<rparr>
           else None))"
proof -
  let ?G = "foldl labels_append [] (Push_tasks w self)"
  let ?S = "map (\<lambda>(l, g). (l, \<lparr>summary_label = l, summary_tasks = g\<rparr>)) ?G"
  have d: "distinct (map fst ?G)"
    by (rule distinct_grouped) simp
  have "map fst ?S = map fst ?G"
    by (simp add: comp_def case_prod_unfold)
  with d have "distinct (map fst ?S)" by (simp only:)
  moreover have "\<forall>l. map_of ?S l =
          (if l \<in> Push_task_labels w self
           then Some \<lparr>summary_label = l,
                  summary_tasks = filter (\<lambda>t. label t = l) (Push_tasks w self)\<rparr>
           else None)"
    by (simp add: map_of_map_snd map_of_grouped_Nil Push_task_labels_def)
  ultimately show ?thesis
    using label_summaries_Inr [of w self] by blast
qed


lemma distinct_set_add: "distinct xs \<Longrightarrow> distinct (set_add x xs)"
  by (simp add: set_add_def)


lemma distinct_candidate_loop:
  "distinct cr \<Longrightarrow> distinct (candidate_loop items cr)"
  by (induction items cr rule: candidate_loop.induct) (auto simp: distinct_set_add)



section \<open>The parent walk\<close>

lemma parent_for_pushid:
  "parent_for w self other revs = Inl q \<Longrightarrow> Push_pushid w q \<noteq> Push_pushid w self"
  by (induction revs arbitrary: other) (auto simp: Let_def split: if_splits)

lemmas parent_while_induct = parent_while.raw_induct [rotated 1, consumes 1]
lemmas regressions_while_induct = regressions_while.raw_induct [rotated 1, consumes 1]

lemma parent_while_pushid:
  "parent_while w self other = Some q \<Longrightarrow> Push_pushid w q \<noteq> Push_pushid w self"
proof (induction rule: parent_while_induct)
  case (1 pw w self other q)
  then show ?case
    by (auto split: sum.splits dest: parent_for_pushid)
qed

lemma parent_while_has_parents:
  "parent_while w self other = Some q \<Longrightarrow> hg_parents (Push_hgmo w other) \<noteq> []"
proof (induction rule: parent_while_induct)
  case (1 pw w self other q)
  then show ?case
    by (cases "hg_parents (Push_hgmo w other)") auto
qed

lemma parent_while_no_parents:
  assumes "hg_parents (Push_hgmo w other) = []"
  shows "parent_while w self other = None"
  using assms parent_while_has_parents [of w self other]
  by (cases "parent_while w self other") auto

lemma parent_for_find:
  "parent_for w self other revs =
     (case find (other_pushid w self) revs of
        Some r \<Rightarrow> Inl (Push_init r)
      | None \<Rightarrow> Inr (if revs = [] then other else Push_init (last revs)))"
  by (induction revs arbitrary: other)
     (auto simp: Let_def other_pushid_def split: option.splits)

lemma parent_while_found:
  assumes "find (other_pushid w self) (hg_parents (Push_hgmo w other)) = Some r"
  shows "parent_while w self other = Some (Push_init r)"
  using assms by (subst parent_while.simps) (simp add: parent_for_find)

lemma parent_while_next:
  assumes "find (other_pushid w self) (hg_parents (Push_hgmo w (walk_other w self m))) = None"
  shows "parent_while w self (walk_other w self m) = parent_while w self (walk_other w self (Suc m))"
  using assms by (subst parent_while.simps) (simp add: parent_for_find Let_def)

lemma parent_while_chain:
  assumes "\<forall>m<n. find (other_pushid w self) (hg_parents (Push_hgmo w (walk_other w self m))) = None"
  shows "parent_while w self self = parent_while w self (walk_other w self n)"
  using assms
proof (induction n)
  case 0
  then show ?case by simp
next
  case (Suc n)
  then have "parent_while w self self = parent_while w self (walk_other w self n)"
    by simp
  also have "\<dots> = parent_while w self (walk_other w self (Suc n))"
    using Suc.prems by (intro parent_while_next) simp
  finally show ?case .
qed

lemma parent_while_reaches:
  "parent_while w self other = Some q \<Longrightarrow>
     \<forall>k. other = walk_other w self k \<longrightarrow>
       (\<exists>n. find (other_pushid w self) (hg_parents (Push_hgmo w (walk_other w self n))) \<noteq> None)"
proof (induction rule: parent_while_induct)
  case (1 pw w self other q)
  show ?case
  proof (intro allI impI)
    fix k
    assume k: "other = walk_other w self k"
    show "\<exists>n. find (other_pushid w self) (hg_parents (Push_hgmo w (walk_other w self n))) \<noteq> None"
    proof (cases "find (other_pushid w self) (hg_parents (Push_hgmo w other))")
      case None
      with 1(2) have "pw w self (walk_other w self (Suc k)) = Some q"
        by (simp add: parent_for_find k Let_def)
      from 1(1) [OF this] show ?thesis by blast
    next
      case (Some r)
      with k show ?thesis by auto
    qed
  qed
qed

text \<open>
  C6, as the code has it. Whenever the parent walk of a push returns, it returns a push
  with another pushid. It returns whenever the chain of revisions it follows reaches a
  revision that lists a parent with another pushid, and then it returns the first such
  parent listed by the first such revision of the chain. When the chain never reaches
  one the walk never returns; so it is when the parents list of the push's revision is
  empty, where the \<^verbatim>\<open>for\<close> loop has nothing to do and \<^verbatim>\<open>while True\<close> repeats it
  for ever.
\<close>

theorem parent_resolves:
  "(\<forall>q. Push_parent w self = Some q \<longrightarrow> Push_pushid w q \<noteq> Push_pushid w self)
   \<and> (\<forall>n r. (\<forall>m<n. find (other_pushid w self)
                       (hg_parents (Push_hgmo w (walk_other w self m))) = None)
            \<and> find (other_pushid w self)
                 (hg_parents (Push_hgmo w (walk_other w self n))) = Some r
          \<longrightarrow> Push_parent w self = Some (Push_init r))
   \<and> ((\<forall>n. find (other_pushid w self)
               (hg_parents (Push_hgmo w (walk_other w self n))) = None)
        \<longrightarrow> Push_parent w self = None)
   \<and> (hg_parents (Push_hgmo w self) = [] \<longrightarrow> Push_parent w self = None)"
proof (intro conjI allI impI)
  fix q
  assume "Push_parent w self = Some q"
  then show "Push_pushid w q \<noteq> Push_pushid w self"
    unfolding Push_parent_def by (rule parent_while_pushid)
next
  fix n r
  assume a: "(\<forall>m<n. find (other_pushid w self)
                       (hg_parents (Push_hgmo w (walk_other w self m))) = None)
            \<and> find (other_pushid w self)
                 (hg_parents (Push_hgmo w (walk_other w self n))) = Some r"
  then have "parent_while w self self = parent_while w self (walk_other w self n)"
    by (intro parent_while_chain) simp
  also have "\<dots> = Some (Push_init r)"
    using a by (intro parent_while_found) simp
  finally show "Push_parent w self = Some (Push_init r)"
    by (simp add: Push_parent_def)
next
  assume a: "\<forall>n. find (other_pushid w self)
               (hg_parents (Push_hgmo w (walk_other w self n))) = None"
  show "Push_parent w self = None"
  proof (cases "Push_parent w self")
    case None
    then show ?thesis .
  next
    case (Some q)
    then have "parent_while w self self = Some q" by (simp add: Push_parent_def)
    from parent_while_reaches [OF this] a show ?thesis
      by (metis walk_other.simps(1))
  qed
next
  assume "hg_parents (Push_hgmo w self) = []"
  then show "Push_parent w self = None"
    unfolding Push_parent_def by (rule parent_while_no_parents)
qed

text \<open>
  The only parent listed by \<open>p\<close> is \<open>pa\<close>, of the same push; \<open>pa\<close>, the next link
  of the chain, lists \<open>a0\<close>, of another push: the parent of \<open>p\<close> is \<open>a0\<close>.
\<close>

theorem parent_resolves_witness:
  "walk_other ex_world ex_push 1 = Push_init ''pa''
   \<and> find (other_pushid ex_world ex_push) (hg_parents (Push_hgmo ex_world ex_push)) = None
   \<and> find (other_pushid ex_world ex_push)
        (hg_parents (Push_hgmo ex_world (Push_init ''pa''))) = Some ''a0''
   \<and> Push_parent ex_world ex_push = Some (Push_init ''a0'')
   \<and> Push_pushid ex_world (Push_init ''a0'') \<noteq> Push_pushid ex_world ex_push"
proof -
  have w1: "walk_other ex_world ex_push 1 = Push_init ''pa''"
    by code_simp
  have f0: "find (other_pushid ex_world ex_push)
      (hg_parents (Push_hgmo ex_world (walk_other ex_world ex_push 0))) = None"
    by code_simp
  have f1: "find (other_pushid ex_world ex_push)
      (hg_parents (Push_hgmo ex_world (walk_other ex_world ex_push 1))) = Some ''a0''"
    by code_simp
  have before: "\<forall>m<1. find (other_pushid ex_world ex_push)
      (hg_parents (Push_hgmo ex_world (walk_other ex_world ex_push m))) = None"
    using f0 by simp
  from parent_resolves [of ex_world ex_push] before f1
  have p: "Push_parent ex_world ex_push = Some (Push_init ''a0'')"
    by blast
  with parent_resolves [of ex_world ex_push]
  have "Push_pushid ex_world (Push_init ''a0'') \<noteq> Push_pushid ex_world ex_push"
    by blast
  with p w1 f0 f1 show ?thesis by simp
qed

text \<open>
  The revision \<open>a7\<close> has no parents: for the push of \<open>a7\<close> the parent walk does not
  resolve to any push, it runs for ever.
\<close>

theorem parent_never_returns:
  "Push_parent ex_world (Push_init ''a7'') = None"
proof -
  have "hg_parents (Push_hgmo ex_world (Push_init ''a7'')) = []"
    by code_simp
  then show ?thesis
    unfolding Push_parent_def by (rule parent_while_no_parents)
qed

section \<open>The ancestor walk of a label\<close>

lemma regressions_while_count_aux:
  "regressions_while w lbl other count = Some y \<Longrightarrow> \<forall>prior c. y = Inr (prior, c) \<longrightarrow> count \<le> c"
proof (induction rule: regressions_while_induct)
  case (1 rw w lbl other count y)
  show ?case
  proof (cases "lbl \<in> Push_task_labels w other")
    case True
    with 1(2) show ?thesis by (auto split: sum.splits option.splits)
  next
    case False
    with 1(2) obtain parent where "rw w lbl parent (count + 1) = Some y"
      by (auto simp: bind_eq_Some_conv)
    from 1(1) [OF this] show ?thesis by auto
  qed
qed

lemma regressions_while_count:
  "regressions_while w lbl other count = Some (Inr (prior, c)) \<Longrightarrow> count \<le> c"
  using regressions_while_count_aux by blast

lemma regressions_while_no_error:
  "regressions_while w lbl other count = Some y \<Longrightarrow> \<exists>prior c. y = Inr (prior, c)"
proof (induction rule: regressions_while_induct)
  case (1 rw w lbl other count y)
  obtain summaries where s: "Push_label_summaries w other = Inr summaries"
    and m: "\<forall>l. map_of summaries l =
          (if l \<in> Push_task_labels w other
           then Some \<lparr>summary_label = l,
                  summary_tasks = filter (\<lambda>t. label t = l) (Push_tasks w other)\<rparr>
           else None)"
    using label_summaries_char [of w other] by blast
  show ?case
  proof (cases "lbl \<in> Push_task_labels w other")
    case True
    with 1(2) s m show ?thesis by auto
  next
    case False
    with 1 show ?thesis by (auto simp: bind_eq_Some_conv)
  qed
qed

lemma ancestor_Suc_front:
  "ancestor w self (Suc n) = Option.bind (Push_parent w self) (\<lambda>q. ancestor w q n)"
  by (induction n) (simp_all add: bind_assoc)

lemma regressions_while_found:
  assumes "lbl \<in> Push_task_labels w other"
    and "Push_label_summaries w other = Inr summaries"
    and "map_of summaries lbl = Some summary"
  shows "regressions_while w lbl other count =
           Some (Inr (LabelSummary_status summary \<noteq> Some PASS, count))"
  using assms by (subst regressions_while.simps) simp

lemma regressions_while_absent:
  assumes "lbl \<notin> Push_task_labels w other"
  shows "regressions_while w lbl other count =
           Option.bind (Push_parent w other) (\<lambda>parent. regressions_while w lbl parent (count + 1))"
  using assms by (subst regressions_while.simps) simp

lemma regressions_while_walk:
  assumes "ancestor w other n = Some a"
    and "lbl \<notin> Push_task_labels w other"
    and "\<forall>m<n. \<forall>b. ancestor w other m = Some b \<longrightarrow> lbl \<notin> Push_task_labels w b"
    and "lbl \<in> Push_task_labels w a"
    and "Push_label_summaries w a = Inr summaries"
    and "map_of summaries lbl = Some summary"
  shows "regressions_while w lbl other count =
           Some (Inr (LabelSummary_status summary \<noteq> Some PASS, count + 1 + int n))"
  using assms(1-3)
proof (induction n arbitrary: other count)
  case 0
  then have "Push_parent w other = Some a" by simp
  then show ?case
    using "0.prems"(2) assms(4-6)
    by (simp add: regressions_while_absent regressions_while_found)
next
  case (Suc n)
  from Suc.prems(1) obtain q where q: "Push_parent w other = Some q"
    and a: "ancestor w q n = Some a"
    by (auto simp: ancestor_Suc_front bind_eq_Some_conv simp del: ancestor.simps)
  from q have "ancestor w other 0 = Some q" by simp
  with Suc.prems(3) have nq: "lbl \<notin> Push_task_labels w q" by blast
  have rest: "\<forall>m<n. \<forall>b. ancestor w q m = Some b \<longrightarrow> lbl \<notin> Push_task_labels w b"
  proof (intro allI impI)
    fix m b
    assume "m < n" and "ancestor w q m = Some b"
    then have "Suc m < Suc n" and "ancestor w other (Suc m) = Some b"
      using q by (simp_all add: ancestor_Suc_front del: ancestor.simps)
    with Suc.prems(3) show "lbl \<notin> Push_task_labels w b" by blast
  qed
  have "regressions_while w lbl q (count + 1) =
      Some (Inr (LabelSummary_status summary \<noteq> Some PASS, count + 1 + 1 + int n))"
    by (rule Suc.IH [OF a nq rest])
  then show ?case
    using Suc.prems(2) q by (simp add: regressions_while_absent)
qed

text \<open>
  Started at the parent of a push, the walk of a label ends at the nearest ancestor that
  ran the label, and its count is the number of that ancestor.
\<close>

lemma regressions_while_nearest:
  assumes "Push_parent w self = Some other"
    and "ancestor w self n = Some a"
    and "\<forall>m<n. \<forall>b. ancestor w self m = Some b \<longrightarrow> lbl \<notin> Push_task_labels w b"
    and "lbl \<in> Push_task_labels w a"
    and "Push_label_summaries w a = Inr summaries"
    and "map_of summaries lbl = Some summary"
  shows "regressions_while w lbl other 0 =
           Some (Inr (LabelSummary_status summary \<noteq> Some PASS, int n))"
proof (cases n)
  case 0
  with assms(1,2) have "other = a" by simp
  with assms(4-6) show ?thesis
    using 0 by (simp add: regressions_while_found)
next
  case (Suc k)
  from assms(1,2) have a: "ancestor w other k = Some a"
    unfolding Suc by (simp add: ancestor_Suc_front del: ancestor.simps)
  from assms(1) have "ancestor w self 0 = Some other" by simp
  with assms(3) Suc have no: "lbl \<notin> Push_task_labels w other" by blast
  have rest: "\<forall>m<k. \<forall>b. ancestor w other m = Some b \<longrightarrow> lbl \<notin> Push_task_labels w b"
  proof (intro allI impI)
    fix m b
    assume "m < k" and "ancestor w other m = Some b"
    then have "Suc m < n" and "ancestor w self (Suc m) = Some b"
      using assms(1) Suc by (simp_all add: ancestor_Suc_front del: ancestor.simps)
    with assms(3) show "lbl \<notin> Push_task_labels w b" by blast
  qed
  show ?thesis
    using regressions_while_walk [OF a no rest assms(4-6), of 0] Suc by simp
qed

lemma regressions_for_other:
  "regressions_for w self labels regs = Some (Inr regs') \<Longrightarrow> lbl \<notin> set labels \<Longrightarrow>
     map_of regs' lbl = map_of regs lbl"
proof (induction labels arbitrary: regs)
  case Nil
  then show ?case by simp
next
  case (Cons l labels)
  then show ?case
    by (auto simp: update_conv' split: option.splits sum.splits if_splits)
qed

lemma regressions_for_member:
  "regressions_for w self labels regs = Some (Inr regs') \<Longrightarrow> lbl \<in> set labels \<Longrightarrow>
     \<exists>other prior c. Push_parent w self = Some other
       \<and> regressions_while w lbl other 0 = Some (Inr (prior, c))
       \<and> map_of regs' lbl = (if prior then map_of regs lbl else Some c)"
proof (induction labels arbitrary: regs)
  case Nil
  then show ?case by simp
next
  case (Cons l labels)
  from Cons.prems(1) obtain other prior c where p: "Push_parent w self = Some other"
    and r: "regressions_while w l other 0 = Some (Inr (prior, c))"
    and rest: "regressions_for w self labels
        (if \<not> prior then AList.update l c regs else regs) = Some (Inr regs')"
    by (auto split: option.splits sum.splits)
  show ?case
  proof (cases "lbl \<in> set labels")
    case True
    from Cons.IH [OF rest True] obtain prior' c' where
      r': "regressions_while w lbl other 0 = Some (Inr (prior', c'))"
      and m: "map_of regs' lbl =
        (if prior' then map_of (if \<not> prior then AList.update l c regs else regs) lbl else Some c')"
      using p by auto
    show ?thesis
    proof (cases "lbl = l")
      case True
      with r r' have "prior' = prior" "c' = c" by simp_all
      with m True p r show ?thesis by (auto simp: update_conv')
    next
      case False
      with m p r' show ?thesis by (auto simp: update_conv')
    qed
  next
    case False
    with Cons.prems(2) have eq: "lbl = l" by simp
    from regressions_for_other [OF rest False]
    have "map_of regs' lbl = map_of (if \<not> prior then AList.update l c regs else regs) lbl" .
    with eq p r show ?thesis by (auto simp: update_conv')
  qed
qed

lemma set_alist_update_subset:
  "set (AList.update k v al) \<subseteq> insert (k, v) (set al)"
  by (induction al) auto

lemma regressions_for_invariant:
  "regressions_for w self labels regs = Some (Inr regs') \<Longrightarrow>
   distinct (map fst regs) \<Longrightarrow> \<forall>(l, c) \<in> set regs. 0 \<le> c \<Longrightarrow>
     distinct (map fst regs') \<and> (\<forall>(l, c) \<in> set regs'. 0 \<le> c)"
proof (induction labels arbitrary: regs)
  case Nil
  then show ?case by simp
next
  case (Cons l labels)
  from Cons.prems(1) obtain other prior c where p: "Push_parent w self = Some other"
    and r: "regressions_while w l other 0 = Some (Inr (prior, c))"
    and rest: "regressions_for w self labels
        (if \<not> prior then AList.update l c regs else regs) = Some (Inr regs')"
    by (auto split: option.splits sum.splits)
  from r have c: "0 \<le> c" by (rule regressions_while_count)
  have d: "distinct (map fst (if \<not> prior then AList.update l c regs else regs))"
    using Cons.prems(2) by (simp add: distinct_update)
  have n: "\<forall>(l, c) \<in> set (if \<not> prior then AList.update l c regs else regs). 0 \<le> c"
    using Cons.prems(3) c set_alist_update_subset [of l c regs] by auto
  from Cons.IH [OF rest d n] show ?case .
qed


lemma Push_regressions_for:
  assumes "Push_regressions w self = Some (Inr regs)"
  shows "\<exists>cr. Push_candidate_regressions w self = Inr cr
           \<and> regressions_for w self cr [] = Some (Inr regs)"
  using assms by (auto simp: Push_regressions_def split: sum.splits)

lemma ex_regressions:
  "Push_regressions ex_world ex_push = Some (Inr [(''L1'', 2), (''L3'', 0), (''L4'', 6)])"
  by code_simp

text \<open>
  C5. When the nearest ancestor of a push that ran a label (ancestor number \<open>n\<close>, no
  ancestor before it ran the label) has a status other than PASS for it, the label is
  not a key of the regressions of the push. With \<open>n = 0\<close> this is the label that
  already failed on the parent.
\<close>

theorem prior_regression_excluded:
  assumes "Push_regressions w self = Some (Inr regs)"
    and "ancestor w self n = Some a"
    and "\<forall>m<n. \<forall>b. ancestor w self m = Some b \<longrightarrow> lbl \<notin> Push_task_labels w b"
    and "lbl \<in> Push_task_labels w a"
    and "Push_label_summaries w a = Inr summaries"
    and "map_of summaries lbl = Some summary"
    and "LabelSummary_status summary \<noteq> Some PASS"
  shows "lbl \<notin> fst ` set regs"
proof -
  from assms(1) obtain cr where rf: "regressions_for w self cr [] = Some (Inr regs)"
    using Push_regressions_for by blast
  have "map_of regs lbl = None"
  proof (cases "lbl \<in> set cr")
    case True
    from regressions_for_member [OF rf True] obtain other prior c where
      p: "Push_parent w self = Some other"
      and r: "regressions_while w lbl other 0 = Some (Inr (prior, c))"
      and m: "map_of regs lbl = (if prior then map_of [] lbl else Some c)"
      by blast
    from regressions_while_nearest [OF p assms(2-6)] r assms(7) have prior
      by simp
    with m show ?thesis by simp
  next
    case False
    from regressions_for_other [OF rf False] show ?thesis by simp
  qed
  then show ?thesis
    by (simp add: map_of_eq_None_iff)
qed

text \<open>
  \<open>L2\<close> is a candidate of \<open>p\<close> that already failed on the parent \<open>a0\<close>: it is no key
  of the regressions of \<open>p\<close>.
\<close>

theorem prior_regression_excluded_witness:
  "Push_regressions ex_world ex_push = Some (Inr [(''L1'', 2), (''L3'', 0), (''L4'', 6)])
   \<and> ancestor ex_world ex_push 0 = Some (Push_init ''a0'')
   \<and> ''L2'' \<in> Push_task_labels ex_world (Push_init ''a0'')
   \<and> map_option LabelSummary_status
        (map_of (projr (Push_label_summaries ex_world (Push_init ''a0''))) ''L2'') = Some (Some FAIL)
   \<and> ''L2'' \<notin> fst ` set [(''L1'', 2::int), (''L3'', 0), (''L4'', 6)]"
proof -
  have a: "ancestor ex_world ex_push 0 = Some (Push_init ''a0'')"
    by code_simp
  have t: "''L2'' \<in> Push_task_labels ex_world (Push_init ''a0'')"
    by code_simp
  have s: "Push_label_summaries ex_world (Push_init ''a0'') =
      Inr [(''L2'', \<lparr>summary_label = ''L2'', summary_tasks =
             [\<lparr>label = ''L2'', duration = 100, result = ''busted'',
               classification = ''not classified''\<rparr>]\<rparr>),
           (''L3'', \<lparr>summary_label = ''L3'', summary_tasks =
             [\<lparr>label = ''L3'', duration = 200, result = ''success'',
               classification = ''not classified''\<rparr>]\<rparr>)]"
    by code_simp
  have m: "map_of [(''L2'', \<lparr>summary_label = ''L2'', summary_tasks =
             [\<lparr>label = ''L2'', duration = 100, result = ''busted'',
               classification = ''not classified''\<rparr>]\<rparr>),
           (''L3'', \<lparr>summary_label = ''L3'', summary_tasks =
             [\<lparr>label = ''L3'', duration = 200, result = ''success'',
               classification = ''not classified''\<rparr>]\<rparr>)] ''L2''
      = Some \<lparr>summary_label = ''L2'', summary_tasks =
             [\<lparr>label = ''L2'', duration = 100, result = ''busted'',
               classification = ''not classified''\<rparr>]\<rparr>"
    by simp
  have st: "LabelSummary_status \<lparr>summary_label = ''L2'', summary_tasks =
             [\<lparr>label = ''L2'', duration = 100, result = ''busted'',
               classification = ''not classified''\<rparr>]\<rparr> = Some FAIL"
    by code_simp
  then have ne: "LabelSummary_status \<lparr>summary_label = ''L2'', summary_tasks =
             [\<lparr>label = ''L2'', duration = 100, result = ''busted'',
               classification = ''not classified''\<rparr>]\<rparr> \<noteq> Some PASS"
    by simp
  have none: "\<forall>m<0::nat. \<forall>b. ancestor ex_world ex_push m = Some b
      \<longrightarrow> ''L2'' \<notin> Push_task_labels ex_world b"
    by simp
  from prior_regression_excluded [OF ex_regressions a none t s m ne]
  show ?thesis
    using ex_regressions a t s st by simp
qed

text \<open>
  The other outcome of the walk: a candidate that passed on the nearest ancestor that ran
  it, ancestor number \<open>n\<close>, is recorded with the count \<open>n\<close>, whatever \<open>n\<close> is.
\<close>

lemma regressions_distance:
  assumes "Push_regressions w self = Some (Inr regs)"
    and "Push_candidate_regressions w self = Inr cr"
    and "lbl \<in> set cr"
    and "ancestor w self n = Some a"
    and "\<forall>m<n. \<forall>b. ancestor w self m = Some b \<longrightarrow> lbl \<notin> Push_task_labels w b"
    and "lbl \<in> Push_task_labels w a"
    and "Push_label_summaries w a = Inr summaries"
    and "map_of summaries lbl = Some summary"
    and "LabelSummary_status summary = Some PASS"
  shows "map_of regs lbl = Some (int n)"
proof -
  from assms(1,2) have rf: "regressions_for w self cr [] = Some (Inr regs)"
    by (simp add: Push_regressions_def)
  from regressions_for_member [OF rf assms(3)] obtain other prior c where
    p: "Push_parent w self = Some other"
    and r: "regressions_while w lbl other 0 = Some (Inr (prior, c))"
    and m: "map_of regs lbl = (if prior then map_of [] lbl else Some c)"
    by blast
  from regressions_while_nearest [OF p assms(4-8)] r assms(9)
  have "\<not> prior" and "c = int n" by simp_all
  with m show ?thesis by simp
qed

lemma Push_regressions_invariant:
  assumes "Push_regressions w self = Some (Inr regs)"
  shows "distinct (map fst regs)" and "\<forall>(l, c) \<in> set regs. 0 \<le> c"
proof -
  from assms obtain cr where rf: "regressions_for w self cr [] = Some (Inr regs)"
    using Push_regressions_for by blast
  from regressions_for_invariant [OF rf]
  show "distinct (map fst regs)" and "\<forall>(l, c) \<in> set regs. 0 \<le> c"
    by simp_all
qed

text \<open>
  C4. When the regressions of a push are computed, the likely regressions are the keys
  recorded with count \<open>0\<close>, the possible regressions the keys recorded with a count
  above \<open>0\<close>; the two sets are disjoint and together they are all the keys.
\<close>

theorem regressions_partition:
  assumes "Push_regressions w self = Some (Inr regs)"
  shows "Push_likely_regressions w self = Some (Inr {l. map_of regs l = Some 0})
       \<and> Push_possible_regressions w self = Some (Inr {l. \<exists>c. map_of regs l = Some c \<and> 0 < c})
       \<and> {l. map_of regs l = Some 0} \<inter> {l. \<exists>c. map_of regs l = Some c \<and> 0 < c} = {}
       \<and> {l. map_of regs l = Some 0} \<union> {l. \<exists>c. map_of regs l = Some c \<and> 0 < c}
           = fst ` set regs"
proof -
  note d = Push_regressions_invariant(1) [OF assms]
  note n = Push_regressions_invariant(2) [OF assms]
  have m: "\<And>l c. (l, c) \<in> set regs \<longleftrightarrow> map_of regs l = Some c"
    using d by simp
  have l: "set (map fst (filter (\<lambda>(lbl, count). count = 0) regs)) = {l. map_of regs l = Some 0}"
  proof (intro equalityI subsetI)
    fix x
    assume "x \<in> set (map fst (filter (\<lambda>(lbl, count). count = 0) regs))"
    then have "(x, 0) \<in> set regs" by auto
    then show "x \<in> {l. map_of regs l = Some 0}" by (simp add: m)
  next
    fix x
    assume "x \<in> {l. map_of regs l = Some 0}"
    then have "(x, 0) \<in> set regs" by (simp add: m)
    then show "x \<in> set (map fst (filter (\<lambda>(lbl, count). count = 0) regs))" by force
  qed
  have p: "set (map fst (filter (\<lambda>(lbl, count). count > 0) regs))
      = {l. \<exists>c. map_of regs l = Some c \<and> 0 < c}"
    by (auto simp: m [symmetric] image_iff)
  have i: "{l. map_of regs l = Some 0} \<inter> {l. \<exists>c. map_of regs l = Some c \<and> 0 < c} = {}"
    by auto
  have u: "{l. map_of regs l = Some 0} \<union> {l. \<exists>c. map_of regs l = Some c \<and> 0 < c}
           = fst ` set regs"
  proof (intro equalityI subsetI)
    fix x
    assume "x \<in> {l. map_of regs l = Some 0} \<union> {l. \<exists>c. map_of regs l = Some c \<and> 0 < c}"
    then obtain c where "map_of regs x = Some c" by auto
    then have "(x, c) \<in> set regs" by (simp add: m)
    then show "x \<in> fst ` set regs" by force
  next
    fix x
    assume "x \<in> fst ` set regs"
    then obtain c where xc: "(x, c) \<in> set regs" by auto
    with n have "0 \<le> c" by auto
    then have "c = 0 \<or> 0 < c" by auto
    with xc show "x \<in> {l. map_of regs l = Some 0} \<union> {l. \<exists>c. map_of regs l = Some c \<and> 0 < c}"
      by (auto simp: m)
  qed
  have "Push_likely_regressions w self = Some (Inr {l. map_of regs l = Some 0})"
    by (simp add: Push_likely_regressions_def assms l [symmetric])
  moreover have "Push_possible_regressions w self
      = Some (Inr {l. \<exists>c. map_of regs l = Some c \<and> 0 < c})"
    by (simp add: Push_possible_regressions_def assms p [symmetric])
  ultimately show ?thesis using i u by blast
qed

text \<open>
  The regressions of \<open>p\<close>: \<open>L3\<close> is likely (count 0), \<open>L1\<close> and \<open>L4\<close> are
  possible (counts 2 and 6).
\<close>

theorem regressions_partition_witness:
  "Push_regressions ex_world ex_push = Some (Inr [(''L1'', 2), (''L3'', 0), (''L4'', 6)])
   \<and> Push_likely_regressions ex_world ex_push = Some (Inr {''L3''})
   \<and> Push_possible_regressions ex_world ex_push = Some (Inr {''L1'', ''L4''})"
proof -
  have l: "{l. map_of [(''L1'', 2::int), (''L3'', 0), (''L4'', 6)] l = Some 0} = {''L3''}"
    by auto
  have p: "{l. \<exists>c. map_of [(''L1'', 2::int), (''L3'', 0), (''L4'', 6)] l = Some c \<and> 0 < c}
      = {''L1'', ''L4''}"
    by (auto split: if_splits)
  from regressions_partition [OF ex_regressions] show ?thesis
    unfolding l p using ex_regressions by blast
qed

section \<open>The order of the candidates, and the missing bound\<close>

lemma regressions_for_no_error:
  "regressions_for w self labels regs = Some y \<Longrightarrow> \<exists>regs'. y = Inr regs'"
proof (induction labels arbitrary: regs)
  case Nil
  then show ?case by auto
next
  case (Cons l labels)
  then show ?case
    by (auto split: option.splits sum.splits dest: regressions_while_no_error)
qed

lemma regressions_for_None:
  "regressions_for w self labels regs = None \<longleftrightarrow>
     labels \<noteq> [] \<and>
     (case Push_parent w self of
        None \<Rightarrow> True
      | Some other \<Rightarrow> \<exists>l \<in> set labels. regressions_while w l other 0 = None)"
proof (induction labels arbitrary: regs)
  case Nil
  then show ?case by simp
next
  case (Cons l labels)
  show ?case
  proof (cases "Push_parent w self")
    case None
    then show ?thesis by simp
  next
    case (Some other)
    show ?thesis
    proof (cases "regressions_while w l other 0")
      case None
      with Some show ?thesis by simp
    next
      case (Some y)
      with regressions_while_no_error obtain prior c where y: "y = Inr (prior, c)"
        by blast
      have step: "regressions_for w self (l # labels) regs =
          regressions_for w self labels (if \<not> prior then AList.update l c regs else regs)"
        using \<open>Push_parent w self = Some other\<close> Some y by simp
      have head: "regressions_while w l other 0 \<noteq> None"
        using Some by simp
      show ?thesis
        unfolding step Cons.IH using \<open>Push_parent w self = Some other\<close> head by auto
    qed
  qed
qed

text \<open>
  The order of the candidates has no influence on the outcome: two enumerations of the
  same set of labels both run for ever or both return, and then they return the same
  mapping.
\<close>

lemma regressions_for_cong:
  assumes "set labels = set labels'"
  shows "(regressions_for w self labels [] = None \<longleftrightarrow> regressions_for w self labels' [] = None)
       \<and> (\<forall>y y'. regressions_for w self labels [] = Some y
              \<and> regressions_for w self labels' [] = Some y'
            \<longrightarrow> (\<exists>regs regs'. y = Inr regs \<and> y' = Inr regs' \<and> map_of regs = map_of regs'))"
proof (intro conjI allI impI)
  from assms have "labels = [] \<longleftrightarrow> labels' = []" by auto
  with assms show "regressions_for w self labels [] = None
      \<longleftrightarrow> regressions_for w self labels' [] = None"
    by (simp add: regressions_for_None split: option.splits)
next
  fix y y'
  assume "regressions_for w self labels [] = Some y
      \<and> regressions_for w self labels' [] = Some y'"
  then obtain regs regs' where r: "regressions_for w self labels [] = Some (Inr regs)"
    and r': "regressions_for w self labels' [] = Some (Inr regs')"
    and y: "y = Inr regs" "y' = Inr regs'"
    using regressions_for_no_error by blast
  have "map_of regs l = map_of regs' l" for l
  proof (cases "l \<in> set labels")
    case True
    with assms have True': "l \<in> set labels'" by simp
    from regressions_for_member [OF r True] regressions_for_member [OF r' True']
    show ?thesis by auto
  next
    case False
    with assms have False': "l \<notin> set labels'" by simp
    from regressions_for_other [OF r False] regressions_for_other [OF r' False']
    show ?thesis by simp
  qed
  then have "map_of regs = map_of regs'" by (rule ext)
  with y show "\<exists>regs regs'. y = Inr regs \<and> y' = Inr regs' \<and> map_of regs = map_of regs'"
    by blast
qed

text \<open>
  The candidate \<open>L2\<close> of the push \<open>a0\<close> ran on none of its ancestors. Its walk goes
  down to \<open>a7\<close>, whose parent walk never returns, and so the regressions of \<open>a0\<close>
  are never returned.
\<close>

lemma ex_regressions_diverge:
  "Push_regressions ex_world (Push_init ''a0'') = None"
proof -
  have c: "Push_candidate_regressions ex_world (Push_init ''a0'') = Inr [''L2'']"
    by code_simp
  have p: "Push_parent ex_world (Push_init ''a0'') = Some (Push_init ''a1'')"
    "Push_parent ex_world (Push_init ''a1'') = Some (Push_init ''a2'')"
    "Push_parent ex_world (Push_init ''a2'') = Some (Push_init ''a3'')"
    "Push_parent ex_world (Push_init ''a3'') = Some (Push_init ''a4'')"
    "Push_parent ex_world (Push_init ''a4'') = Some (Push_init ''a5'')"
    "Push_parent ex_world (Push_init ''a5'') = Some (Push_init ''a6'')"
    "Push_parent ex_world (Push_init ''a6'') = Some (Push_init ''a7'')"
    by code_simp+
  have "hg_parents (Push_hgmo ex_world (Push_init ''a7'')) = []"
    by code_simp
  then have root: "Push_parent ex_world (Push_init ''a7'') = None"
    unfolding Push_parent_def by (rule parent_while_no_parents)
  have t: "''L2'' \<notin> Push_task_labels ex_world (Push_init ''a1'')"
    "''L2'' \<notin> Push_task_labels ex_world (Push_init ''a2'')"
    "''L2'' \<notin> Push_task_labels ex_world (Push_init ''a3'')"
    "''L2'' \<notin> Push_task_labels ex_world (Push_init ''a4'')"
    "''L2'' \<notin> Push_task_labels ex_world (Push_init ''a5'')"
    "''L2'' \<notin> Push_task_labels ex_world (Push_init ''a6'')"
    "''L2'' \<notin> Push_task_labels ex_world (Push_init ''a7'')"
    by code_simp+
  have "regressions_while ex_world ''L2'' (Push_init ''a1'') 0 = None"
    by (simp add: regressions_while_absent t p root)
  then show ?thesis
    by (simp add: Push_regressions_def c p)
qed

text \<open>
  C2 does not hold of the code. The docstring of \<^verbatim>\<open>Push.regressions\<close> promises the
  count 99 when the maximum number of parents was searched without finding the task,
  and the body assigns \<^verbatim>\<open>max_depth = 5\<close>, but the walk never reads it. The candidate
  \<open>L4\<close> of \<open>p\<close> ran on none of the ancestors number 0 to 5 and on ancestor number 6:
  the count recorded for it is 6, not 99. And the regressions of \<open>a0\<close>, whose candidate
  ran on no ancestor at all, are never returned.
\<close>

theorem regressions_beyond_max_depth:
  "Push_candidate_regressions ex_world ex_push = Inr [''L1'', ''L2'', ''L3'', ''L4'']
   \<and> map (\<lambda>n. map_option (\<lambda>a. ''L4'' \<in> Push_task_labels ex_world a) (ancestor ex_world ex_push n))
        [0, 1, 2, 3, 4, 5, 6]
       = [Some False, Some False, Some False, Some False, Some False, Some False, Some True]
   \<and> Push_regressions ex_world ex_push = Some (Inr [(''L1'', 2), (''L3'', 0), (''L4'', 6)])
   \<and> Push_regressions ex_world (Push_init ''a0'') = None"
proof -
  have "Push_candidate_regressions ex_world ex_push = Inr [''L1'', ''L2'', ''L3'', ''L4'']"
    by code_simp
  moreover have "map (\<lambda>n. map_option (\<lambda>a. ''L4'' \<in> Push_task_labels ex_world a) (ancestor ex_world ex_push n))
        [0, 1, 2, 3, 4, 5, 6]
       = [Some False, Some False, Some False, Some False, Some False, Some False, Some True]"
    by code_simp
  moreover have "Push_regressions ex_world ex_push
      = Some (Inr [(''L1'', 2), (''L3'', 0), (''L4'', 6)])"
    by code_simp
  ultimately show ?thesis
    using ex_regressions_diverge by simp
qed

end
